theory Spec2Isabelle
  imports Main
begin

section \<open>Errors\<close>

text \<open>
  Every \<^verbatim>\<open>throw\<close> of the TypeScript sources is a value of this type. The sources throw
  plain \<^verbatim>\<open>Error\<close> objects that differ in their message; the constructors carry the names
  the specification gives to these failures:
  \<^item> \<open>AgentError m\<close>: \<^verbatim>\<open>throw new Error(lines[0])\<close> in \<^verbatim>\<open>isKeyUnlocked\<close>;
  \<^item> \<open>ParseError\<close>: \<^verbatim>\<open>throw new Error('Fail to parse KEYINFO output')\<close>, and a malformed
    wire line in the codec;
  \<^item> \<open>KeyNotFound k\<close>: \<^verbatim>\<open>throw new Error(`Cannot find key with ID: ${keyId}`)\<close>;
  \<^item> \<open>UnhandledFlow\<close>: \<^verbatim>\<open>throw new Error('unhandled signing flow')\<close>;
  \<^item> \<open>NoActiveFolder\<close>, \<open>NoKeyForFolder\<close>: the two throws of \<^verbatim>\<open>unlockCurrentKey\<close>;
  \<^item> the others are raised inside the protocol client (module \<^verbatim>\<open>./assuan\<close>).
\<close>

datatype ResponseType = ok | err | rawData | information | inquire | comment

datatype error =
    AgentError string
  | ParseError
  | KeyNotFound string
  | UnhandledFlow
  | NoActiveFolder
  | NoKeyForFolder
  | UnexpectedResponse ResponseType ResponseType
  | ProtocolViolation
  | SessionClosed
  | ConnectionError
  | IOError
  | EndOfStream

section \<open>Key catalog: \<^verbatim>\<open>getKeyInfo\<close>\<close>

record GpgKeyInfo =
  type :: string
  capabilities :: string
  fingerprint :: string
  keygrip :: string

text \<open>\<^verbatim>\<open>s.startsWith(p)\<close> and \<^verbatim>\<open>s.includes(p)\<close> on sequences of code units.\<close>

fun startsWith :: "'a list \<Rightarrow> 'a list \<Rightarrow> bool" where
  "startsWith s [] = True"
| "startsWith [] (p # ps) = False"
| "startsWith (c # s) (p # ps) = (c = p \<and> startsWith s ps)"

fun includes_sub :: "'a list \<Rightarrow> 'a list \<Rightarrow> bool" where
  "includes_sub [] p = (p = [])"
| "includes_sub (c # s) p = (startsWith (c # s) p \<or> includes_sub s p)"

text \<open>
  The loop of \<^verbatim>\<open>getKeyInfo\<close> over the parsed records (lines 150 to 157): the first record
  whose fingerprint includes the identifier is returned, and the function throws when the
  loop ends.
\<close>

fun findKey :: "GpgKeyInfo list \<Rightarrow> string \<Rightarrow> error + GpgKeyInfo" where
  "findKey [] keyId = Inl (KeyNotFound keyId)"
| "findKey (info # infos) keyId =
     (if includes_sub (fingerprint info) keyId then Inr info else findKey infos keyId)"

section \<open>Key catalog: \<^verbatim>\<open>parseGpgKey\<close>\<close>

text \<open>
  The constructs of the regular expression of \<^verbatim>\<open>parseGpgKey\<close>: a character, a class
  \<^verbatim>\<open>[...]\<close>, a negated class \<^verbatim>\<open>[^...]\<close>, concatenation, alternation, the greedy
  \<^verbatim>\<open>*\<close>, the lazy \<^verbatim>\<open>*?\<close>, and a capture group with its number.
\<close>

datatype regex =
    Eps
  | Chr char
  | Class "char list"
  | NotClass "char list"
  | Seq regex regex
  | Alt regex regex
  | Star regex
  | LazyStar regex
  | Group nat regex

text \<open>
  \<open>matches r (s, g)\<close> lists every way in which the backtracking matcher of JavaScript can
  match \<open>r\<close> at the start of \<open>s\<close>, in the order in which it tries them; each is the rest
  of the input with the captures. A greedy star tries one more iteration before it stops,
  a lazy star stops before it tries one more; an iteration that consumes nothing is not
  repeated. A class matches any character it lists, a line feed included.
\<close>

type_synonym captures = "nat \<Rightarrow> string option"

function matches :: "regex \<Rightarrow> string \<times> captures \<Rightarrow> (string \<times> captures) list" where
  "matches Eps x = [x]"
| "matches (Chr c) x =
     (case fst x of [] \<Rightarrow> [] | a # s \<Rightarrow> if a = c then [(s, snd x)] else [])"
| "matches (Class cs) x =
     (case fst x of [] \<Rightarrow> [] | a # s \<Rightarrow> if a \<in> set cs then [(s, snd x)] else [])"
| "matches (NotClass cs) x =
     (case fst x of [] \<Rightarrow> [] | a # s \<Rightarrow> if a \<notin> set cs then [(s, snd x)] else [])"
| "matches (Seq r1 r2) x = concat (map (matches r2) (matches r1 x))"
| "matches (Alt r1 r2) x = matches r1 x @ matches r2 x"
| "matches (Star r) x =
     concat (map (\<lambda>y. if length (fst y) < length (fst x) then matches (Star r) y else [])
       (matches r x)) @ [x]"
| "matches (LazyStar r) x =
     x # concat (map (\<lambda>y. if length (fst y) < length (fst x) then matches (LazyStar r) y else [])
       (matches r x))"
| "matches (Group n r) x =
     map (\<lambda>y. (fst y, (snd y)(n := Some (take (length (fst x) - length (fst y)) (fst x)))))
       (matches r x)"
  by pat_completeness auto
termination
  by (relation "inv_image (measure size <*lex*> measure length) (\<lambda>(r, x). (r, fst x))") auto

text \<open>A literal word, \<^verbatim>\<open>r{n}\<close>, \<^verbatim>\<open>r+\<close>, and the characters of \<^verbatim>\<open>\w\<close>.\<close>

fun lits :: "string \<Rightarrow> regex" where
  "lits [] = Eps"
| "lits (c # cs) = Seq (Chr c) (lits cs)"

fun repeat :: "nat \<Rightarrow> regex \<Rightarrow> regex" where
  "repeat 0 r = Eps"
| "repeat (Suc n) r = Seq r (repeat n r)"

definition plus_rx :: "regex \<Rightarrow> regex" where
  "plus_rx r = Seq r (Star r)"

definition word_chars :: "char list" where
  "word_chars = ''abcdefghijklmnopqrstuvwxyzABCDEFGHIJKLMNOPQRSTUVWXYZ0123456789_''"

text \<open>
  The pattern of line 90, in three parts: \<open>field\<close> is \<^verbatim>\<open>(?:[^:]*:)\<close>;
  \<open>key_part k\<close> is \<^verbatim>\<open>(pub|sub):(?:[^:]*:){10}([escaD?]+)\w*:(?:[^:]*:)*?\n\<close> followed by \<open>k\<close>;
  \<open>fpr_part k\<close> is \<^verbatim>\<open>(?:fpr|fp2):(?:[^:]*:){8}(\w*):(?:[^:]*:)*?\n\<close> followed by \<open>k\<close>;
  \<open>grp_part\<close> is \<^verbatim>\<open>grp:(?:[^:]*:){8}(\w*):(?:[^:]*:)*?\<close>.
\<close>

definition field :: regex where
  "field = Seq (Star (NotClass '':'')) (Chr CHR '':'')"

definition grp_part :: regex where
  "grp_part =
     Seq (lits ''grp'') (Seq (Chr CHR '':'')
    (Seq (repeat 8 field)
    (Seq (Group 4 (Star (Class word_chars))) (Seq (Chr CHR '':'')
    (LazyStar field)))))"

definition fpr_part :: "regex \<Rightarrow> regex" where
  "fpr_part k =
     Seq (Alt (lits ''fpr'') (lits ''fp2'')) (Seq (Chr CHR '':'')
    (Seq (repeat 8 field)
    (Seq (Group 3 (Star (Class word_chars))) (Seq (Chr CHR '':'')
    (Seq (LazyStar field) (Seq (Chr CHR 0x0A) k))))))"

definition key_part :: "regex \<Rightarrow> regex" where
  "key_part k =
     Seq (Group 1 (Alt (lits ''pub'') (lits ''sub''))) (Seq (Chr CHR '':'')
    (Seq (repeat 10 field)
    (Seq (Group 2 (plus_rx (Class ''escaD?''))) (Seq (Star (Class word_chars)) (Seq (Chr CHR '':'')
    (Seq (LazyStar field) (Seq (Chr CHR 0x0A) k)))))))"

definition pattern :: regex where
  "pattern = key_part (fpr_part grp_part)"

text \<open>
  \<^verbatim>\<open>pattern.exec(rawText)\<close> with the flag \<^verbatim>\<open>g\<close>: the first way to match at the first
  position, from \<^verbatim>\<open>lastIndex\<close> on, where the pattern matches at all. The result is the
  captures and the text after the match, where the next search starts.
\<close>

definition first_match :: "regex \<Rightarrow> string \<times> captures \<Rightarrow> (string \<times> captures) option" where
  "first_match r x = (case matches r x of [] \<Rightarrow> None | y # _ \<Rightarrow> Some y)"

fun exec :: "regex \<Rightarrow> string \<Rightarrow> (captures \<times> string) option" where
  "exec r [] = map_option (\<lambda>y. (snd y, fst y)) (first_match r ([], Map.empty))"
| "exec r (c # s) =
     (case first_match r (c # s, Map.empty) of
        None \<Rightarrow> exec r s
      | Some y \<Rightarrow> Some (snd y, fst y))"

text \<open>
  Lines 92 to 104. \<^verbatim>\<open>matched[n]\<close> is the text of group \<open>n\<close>; every group of the pattern
  takes part in every match. A match that consumes nothing would leave \<^verbatim>\<open>lastIndex\<close>
  where it is and the loop would never end: the result is \<open>None\<close> then.
\<close>

definition group :: "captures \<Rightarrow> nat \<Rightarrow> string" where
  "group matched n = (case matched n of None \<Rightarrow> [] | Some v \<Rightarrow> v)"

function parseGpgKey :: "string \<Rightarrow> GpgKeyInfo list option" where
  "parseGpgKey rawText =
     (case exec pattern rawText of
        None \<Rightarrow> Some []
      | Some (matched, rest) \<Rightarrow>
          if length rest < length rawText then
            map_option
              ((#) \<lparr>type = group matched 1, capabilities = group matched 2,
                    fingerprint = group matched 3, keygrip = group matched 4\<rparr>)
              (parseGpgKey rest)
          else None)"
  by pat_completeness auto
termination
  by (relation "measure length") auto

text \<open>
  A well-formed block of a key listing: the key record, with ten fields before the
  capability field, the fingerprint record and the keygrip record, each with eight fields
  before its value. \<open>render\<close> writes the block up to the colon that ends the keygrip;
  the rest of that line belongs to the text that follows the block.
\<close>

definition colon_fields :: "string list \<Rightarrow> string" where
  "colon_fields fs = concat (map (\<lambda>f. f @ '':'') fs)"

record block =
  key_tag :: string
  key_fields :: "string list"
  key_caps :: string
  key_rest :: string
  key_trail :: "string list"
  fpr_tag :: string
  fpr_fields :: "string list"
  fpr_value :: string
  fpr_trail :: "string list"
  grp_fields :: "string list"
  grp_value :: string

definition field_ok :: "string \<Rightarrow> bool" where
  "field_ok f \<longleftrightarrow> CHR '':'' \<notin> set f \<and> CHR 0x0A \<notin> set f"

definition wf_block :: "block \<Rightarrow> bool" where
  "wf_block b \<longleftrightarrow>
     (key_tag b = ''pub'' \<or> key_tag b = ''sub'')
     \<and> length (key_fields b) = 10 \<and> list_all field_ok (key_fields b)
     \<and> key_caps b \<noteq> [] \<and> list_all (\<lambda>c. c \<in> set ''escaD?'') (key_caps b)
     \<and> list_all (\<lambda>c. c \<in> set word_chars) (key_rest b)
     \<and> (case key_rest b of [] \<Rightarrow> True | c # _ \<Rightarrow> c \<notin> set ''escaD?'')
     \<and> list_all field_ok (key_trail b)
     \<and> (fpr_tag b = ''fpr'' \<or> fpr_tag b = ''fp2'')
     \<and> length (fpr_fields b) = 8 \<and> list_all field_ok (fpr_fields b)
     \<and> list_all (\<lambda>c. c \<in> set word_chars) (fpr_value b)
     \<and> list_all field_ok (fpr_trail b)
     \<and> length (grp_fields b) = 8 \<and> list_all field_ok (grp_fields b)
     \<and> list_all (\<lambda>c. c \<in> set word_chars) (grp_value b)"

definition render :: "block \<Rightarrow> string" where
  "render b =
     key_tag b @ '':'' @ colon_fields (key_fields b) @ key_caps b @ key_rest b @ '':''
       @ colon_fields (key_trail b) @ [CHR 0x0A]
     @ fpr_tag b @ '':'' @ colon_fields (fpr_fields b) @ fpr_value b @ '':''
       @ colon_fields (fpr_trail b) @ [CHR 0x0A]
     @ ''grp:'' @ colon_fields (grp_fields b) @ grp_value b @ '':''"

definition block_info :: "block \<Rightarrow> GpgKeyInfo" where
  "block_info b =
     \<lparr>type = key_tag b, capabilities = key_caps b,
      fingerprint = fpr_value b, keygrip = grp_value b\<rparr>"

text \<open>
  \<open>quiet junk rest\<close>: no position inside \<open>junk\<close>, in the text \<open>junk @ rest\<close>, starts with
  \<^verbatim>\<open>pub:\<close> or \<^verbatim>\<open>sub:\<close>.
\<close>

definition tagged :: "string \<Rightarrow> bool" where
  "tagged s \<longleftrightarrow> startsWith s ''pub:'' \<or> startsWith s ''sub:''"

fun quiet :: "string \<Rightarrow> string \<Rightarrow> bool" where
  "quiet [] rest = True"
| "quiet (c # junk) rest = (\<not> tagged (c # junk @ rest) \<and> quiet junk rest)"

text \<open>A sample listing: a primary and a subordinate key, with a \<^verbatim>\<open>uid\<close> record between.\<close>

definition sample_pub :: block where
  "sample_pub =
     \<lparr>key_tag = ''pub'',
      key_fields = [''u'', ''4096'', ''1'', ''6E4C1E8149AC3C4B'', ''1582185482'', [], [], ''u'', [], []],
      key_caps = ''sc'', key_rest = ''ESC'', key_trail = [[], [], [], [], [], ''23'', [], ''0''],
      fpr_tag = ''fpr'', fpr_fields = [[], [], [], [], [], [], [], []],
      fpr_value = ''ABCDEF0123456789ABCDEF0123456789ABCFF001'', fpr_trail = [],
      grp_fields = [[], [], [], [], [], [], [], []],
      grp_value = ''CB18328AD05158F97CC8F33682F7AD291F52CB08''\<rparr>"

definition sample_sub :: block where
  "sample_sub =
     \<lparr>key_tag = ''sub'',
      key_fields = [''u'', ''4096'', ''1'', ''AAAA1E8149AC3C4B'', ''1582185482'', [], [], [], [], []],
      key_caps = ''e'', key_rest = [], key_trail = [[], [], [], [], [], ''23''],
      fpr_tag = ''fpr'', fpr_fields = [[], [], [], [], [], [], [], []],
      fpr_value = ''1111110123456789ABCDEF0123456789ABCFF002'', fpr_trail = [],
      grp_fields = [[], [], [], [], [], [], [], []],
      grp_value = ''DD18328AD05158F97CC8F33682F7AD291F52CB09''\<rparr>"

definition sample_uid :: string where
  "sample_uid = CHR 0x0A # ''uid:u::::1582185482::HASH::Name <mail@example.org>::::::::::0:'' @ [CHR 0x0A]"

section \<open>Status query: \<^verbatim>\<open>isKeyUnlocked\<close>\<close>

text \<open>
  \<^verbatim>\<open>s.split(c)\<close> for a separator of one character: a string with \<open>n\<close> separators gives
  \<open>n + 1\<close> pieces, some of them possibly empty. The result is never the empty list, so
  the first branch of the \<open>case\<close> is never taken.
\<close>

fun split_str :: "char \<Rightarrow> string \<Rightarrow> string list" where
  "split_str c [] = [[]]"
| "split_str c (x # xs) =
     (if x = c then [] # split_str c xs
      else (case split_str c xs of
              [] \<Rightarrow> [[x]]
            | t # ts \<Rightarrow> (x # t) # ts))"

text \<open>
  The body of \<^verbatim>\<open>isKeyUnlocked\<close> after the external command has returned its output
  (lines 111 to 124). \<^verbatim>\<open>lines[0]\<close> and \<^verbatim>\<open>tokens[6]\<close> are read only where they exist:
  \<^verbatim>\<open>split\<close> never returns an empty array, and \<open>tokens\<close> has 11 elements where index 6
  is read.
\<close>

definition parseKeyInfo :: "string \<Rightarrow> error + bool" where
  "parseKeyInfo outputs =
     (let lines = split_str CHR 0x0A outputs in
      if length lines = 1 then Inl (AgentError (lines ! 0))
      else
        let line = lines ! 0;
            tokens = split_str CHR '' '' line in
        if length tokens \<noteq> 11 then Inl ParseError
        else Inr (tokens ! 6 = ''1''))"

text \<open>A status line written from its tokens, one space between two tokens.\<close>

fun join_tokens :: "string list \<Rightarrow> string" where
  "join_tokens [] = []"
| "join_tokens [t] = t"
| "join_tokens (t # u # ts) = t @ CHR '' '' # join_tokens (u # ts)"

section \<open>The protocol client used by \<^verbatim>\<open>sign\<close>\<close>

text \<open>
  \<^verbatim>\<open>sign\<close> drives an \<^verbatim>\<open>assuan.AssuanClient\<close>. The module \<^verbatim>\<open>./assuan\<close> is not among the
  sources, so the requests and responses are the tagged unions of the specification's data
  model, and the client is a parameter of \<^verbatim>\<open>sign\<close>: a record of its four operations over
  a state \<open>'s\<close> of the client's own (socket, buffers, logger). Every operation returns the
  new state; an operation that can throw returns \<open>Inl\<close> of the error.
\<close>

datatype Request =
    fromCommand string "string option"  \<comment> \<open>\<^verbatim>\<open>new RequestCommand(name, argument?)\<close>\<close>
  | fromRawData string                  \<comment> \<open>\<^verbatim>\<open>new RequestRawData(bytes)\<close>\<close>

datatype Response =
    Ok string
  | ErrorResponse nat string
  | RawData string
  | Information string string
  | Inquire string
  | Comment string

fun getType :: "Response \<Rightarrow> ResponseType" where
  "getType (Ok _) = ok"
| "getType (ErrorResponse _ _) = err"
| "getType (RawData _) = rawData"
| "getType (Information _ _) = information"
| "getType (Inquire _) = inquire"
| "getType (Comment _) = comment"

text \<open>
  Modelled from the spec: \<^verbatim>\<open>Response.checkType\<close> of the missing module \<^verbatim>\<open>./assuan\<close>.
  It asserts that the response is of the expected variant and fails with
  \<open>UnexpectedResponse expected actual\<close> otherwise.
\<close>

definition checkType :: "Response \<Rightarrow> ResponseType \<Rightarrow> error + unit" where
  "checkType response expected =
     (if getType response = expected then Inr ()
      else Inl (UnexpectedResponse expected (getType response)))"

type_synonym ('s, 'a) prog = "'s \<Rightarrow> (error + 'a) \<times> 's"

record 's AssuanClient =
  initialize :: "('s, unit) prog"
  receiveResponse :: "('s, Response) prog"
  sendRequest :: "Request \<Rightarrow> ('s, unit) prog"
  dispose :: "'s \<Rightarrow> 's"

text \<open>
  Sequencing of two awaited statements: when the first throws, the second is not run and
  the state is the one the first left. \<open>lift\<close> is a statement that only computes
  (\<^verbatim>\<open>response.checkType(...)\<close>, \<^verbatim>\<open>throw\<close>); \<open>try_finally\<close> is \<^verbatim>\<open>try { ... } finally { ... }\<close>
  with a handler that cannot throw.
\<close>

definition bind :: "('s, 'a) prog \<Rightarrow> ('a \<Rightarrow> ('s, 'b) prog) \<Rightarrow> ('s, 'b) prog" where
  "bind m f = (\<lambda>s. case m s of (Inl e, s') \<Rightarrow> (Inl e, s') | (Inr a, s') \<Rightarrow> f a s')"

definition lift :: "error + 'a \<Rightarrow> ('s, 'a) prog" where
  "lift r = (\<lambda>s. (r, s))"

definition try_finally :: "('s, 'a) prog \<Rightarrow> ('s \<Rightarrow> 's) \<Rightarrow> ('s, 'a) prog" where
  "try_finally m h = (\<lambda>s. case m s of (r, s') \<Rightarrow> (r, h s'))"

section \<open>The signing handshake: \<^verbatim>\<open>sign\<close>\<close>

text \<open>
  One scripted step, \<^verbatim>\<open>response = await agent.receiveResponse(); response.checkType(t);\<close>
\<close>

definition expect :: "'s AssuanClient \<Rightarrow> ResponseType \<Rightarrow> ('s, unit) prog" where
  "expect agent t = bind (receiveResponse agent) (\<lambda>response. lift (checkType response t))"

text \<open>
  Lines 56 to 70: the branch on the type of the response to \<^verbatim>\<open>PKSIGN\<close>. A \<open>string\<close> is
  a sequence of bytes here. The argument \<open>passphrase\<close> is the passphrase as the bytes that
  \<^verbatim>\<open>Buffer.from(passphrase)\<close> yields, the UTF-8 encoding of the JavaScript string (for a
  passphrase in ASCII, its characters): line 62 does nothing else with the string, so the
  payload of the RawData request is this byte sequence.
\<close>

definition pksign_branch :: "'s AssuanClient \<Rightarrow> string \<Rightarrow> ResponseType \<Rightarrow> ('s, unit) prog" where
  "pksign_branch agent passphrase t =
     (if t = rawData then
        expect agent ok
      else if t = information then
        bind (expect agent inquire) (\<lambda>_.
        bind (sendRequest agent (fromRawData passphrase)) (\<lambda>_.
        bind (sendRequest agent (fromCommand ''END'' None)) (\<lambda>_.
        bind (expect agent rawData) (\<lambda>_.
        expect agent ok))))
      else
        lift (Inl UnhandledFlow))"

text \<open>Lines 38 to 74: the body of the \<^verbatim>\<open>try\<close> block.\<close>

definition sign_body :: "'s AssuanClient \<Rightarrow> string \<Rightarrow> string \<Rightarrow> string \<Rightarrow> ('s, unit) prog" where
  "sign_body agent keygrip' passphrase sha1Hash =
     bind (expect agent ok) (\<lambda>_.
     bind (sendRequest agent (fromCommand ''OPTION'' (Some ''pinentry-mode loopback''))) (\<lambda>_.
     bind (expect agent ok) (\<lambda>_.
     bind (sendRequest agent (fromCommand ''SIGKEY'' (Some keygrip'))) (\<lambda>_.
     bind (expect agent ok) (\<lambda>_.
     bind (sendRequest agent (fromCommand ''SETHASH'' (Some (''--hash=sha1 '' @ sha1Hash)))) (\<lambda>_.
     bind (expect agent ok) (\<lambda>_.
     bind (sendRequest agent (fromCommand ''PKSIGN'' None)) (\<lambda>_.
     bind (receiveResponse agent) (\<lambda>response.
     bind (pksign_branch agent passphrase (getType response)) (\<lambda>_.
     bind (sendRequest agent (fromCommand ''BYE'' None)) (\<lambda>_.
     expect agent ok)))))))))))"

text \<open>
  Lines 35 to 77. The argument state is the client that \<^verbatim>\<open>new AssuanClient(logger, socketPath)\<close>
  has built. \<^verbatim>\<open>await agent.initialize()\<close> stands before the \<^verbatim>\<open>try\<close>: when it throws,
  the \<^verbatim>\<open>finally\<close> block is not entered.
\<close>

definition sign :: "'s AssuanClient \<Rightarrow> string \<Rightarrow> string \<Rightarrow> string \<Rightarrow> ('s, unit) prog" where
  "sign agent keygrip' passphrase sha1Hash =
     bind (initialize agent) (\<lambda>_.
     try_finally (sign_body agent keygrip' passphrase sha1Hash) (dispose agent))"

section \<open>Clients: a scripted peer, the Session, and two observers\<close>

text \<open>
  Modelled from the spec: the scripted peer of the specification's testable properties,
  reached through a Transport and Codec that pass every request and response on unchanged
  (the module \<^verbatim>\<open>./assuan\<close> is missing). The peer's replies are the list \<open>incoming\<close>, read
  in order; every request handed to \<^verbatim>\<open>sendRequest\<close> is appended to \<open>sent\<close>. \<open>reachable\<close>
  says whether the connection can be opened (\<open>ConnectionError\<close> otherwise). Reading skips
  Comment lines, and reading past the end of the replies is \<open>EndOfStream\<close>.
\<close>

record peer =
  reachable :: bool
  incoming :: "Response list"
  sent :: "Request list"
  released :: nat

fun nextResponse :: "Response list \<Rightarrow> (Response \<times> Response list) option" where
  "nextResponse [] = None"
| "nextResponse (Comment t # rs) = nextResponse rs"
| "nextResponse (r # rs) = Some (r, rs)"

definition peer_initialize :: "(peer, unit) prog" where
  "peer_initialize p = (if reachable p then (Inr (), p) else (Inl ConnectionError, p))"

definition peer_receiveResponse :: "(peer, Response) prog" where
  "peer_receiveResponse p =
     (case nextResponse (incoming p) of
        None \<Rightarrow> (Inl EndOfStream, p\<lparr>incoming := []\<rparr>)
      | Some (r, rest) \<Rightarrow> (Inr r, p\<lparr>incoming := rest\<rparr>))"

definition peer_sendRequest :: "Request \<Rightarrow> (peer, unit) prog" where
  "peer_sendRequest request p = (Inr (), p\<lparr>sent := sent p @ [request]\<rparr>)"

definition peer_dispose :: "peer \<Rightarrow> peer" where
  "peer_dispose p = p\<lparr>released := Suc (released p)\<rparr>"

definition scripted :: "peer AssuanClient" where
  "scripted = \<lparr>initialize = peer_initialize, receiveResponse = peer_receiveResponse,
     sendRequest = peer_sendRequest, dispose = peer_dispose\<rparr>"

text \<open>
  Modelled from the spec: the Session state machine of the missing module \<^verbatim>\<open>./assuan\<close>,
  over the same peer. \<open>initialize\<close> opens the transport and enters \<open>AwaitingGreeting\<close>;
  \<open>sendRequest\<close> is valid only in \<open>Ready\<close> and enters \<open>AwaitingResponse\<close>, and fails with
  \<open>ProtocolViolation\<close> otherwise; \<open>receiveResponse\<close> returns the next response that is not
  a Comment and enters \<open>Ready\<close>; \<open>dispose\<close> closes the transport once and is idempotent;
  every operation on a disposed Session fails with \<open>SessionClosed\<close>.
\<close>

datatype SessionState = Created | AwaitingGreeting | Ready | AwaitingResponse | Closed

record Session =
  state :: SessionState
  transport :: peer

definition session_initialize :: "(Session, unit) prog" where
  "session_initialize s =
     (if state s = Closed then (Inl SessionClosed, s)
      else if reachable (transport s) then (Inr (), s\<lparr>state := AwaitingGreeting\<rparr>)
      else (Inl ConnectionError, s))"

definition session_sendRequest :: "Request \<Rightarrow> (Session, unit) prog" where
  "session_sendRequest request s =
     (if state s = Closed then (Inl SessionClosed, s)
      else if state s = Ready then
        (Inr (), s\<lparr>state := AwaitingResponse,
                      transport := snd (peer_sendRequest request (transport s))\<rparr>)
      else (Inl ProtocolViolation, s))"

definition session_receiveResponse :: "(Session, Response) prog" where
  "session_receiveResponse s =
     (if state s = Closed then (Inl SessionClosed, s)
      else case peer_receiveResponse (transport s) of
        (Inl e, t) \<Rightarrow> (Inl e, s\<lparr>transport := t\<rparr>)
      | (Inr r, t) \<Rightarrow> (Inr r, s\<lparr>state := Ready, transport := t\<rparr>))"

definition session_dispose :: "Session \<Rightarrow> Session" where
  "session_dispose s =
     (if state s = Closed then s
      else s\<lparr>state := Closed, transport := peer_dispose (transport s)\<rparr>)"

definition strict :: "Session AssuanClient" where
  "strict = \<lparr>initialize = session_initialize, receiveResponse = session_receiveResponse,
     sendRequest = session_sendRequest, dispose = session_dispose\<rparr>"

text \<open>
  Any client, with a counter of the calls of \<^verbatim>\<open>dispose\<close> beside its state. The other
  operations run as they are and leave the counter alone.
\<close>

definition counted :: "('s, 'a) prog \<Rightarrow> ('s \<times> nat, 'a) prog" where
  "counted m = (\<lambda>(s, n). case m s of (r, s') \<Rightarrow> (r, (s', n)))"

definition counting :: "'s AssuanClient \<Rightarrow> ('s \<times> nat) AssuanClient" where
  "counting agent = \<lparr>initialize = counted (initialize agent),
     receiveResponse = counted (receiveResponse agent),
     sendRequest = (\<lambda>request. counted (sendRequest agent request)),
     dispose = (\<lambda>(s, n). (dispose agent s, Suc n))\<rparr>"

text \<open>
  Any client, with the list of the requests handed to \<^verbatim>\<open>sendRequest\<close> beside its state,
  whether the send succeeds or throws.
\<close>

definition recorded :: "('s, 'a) prog \<Rightarrow> ('s \<times> Request list, 'a) prog" where
  "recorded m = (\<lambda>(s, t). case m s of (r, s') \<Rightarrow> (r, (s', t)))"

definition recording :: "'s AssuanClient \<Rightarrow> ('s \<times> Request list) AssuanClient" where
  "recording agent = \<lparr>initialize = recorded (initialize agent),
     receiveResponse = recorded (receiveResponse agent),
     sendRequest = (\<lambda>request (s, t).
       case sendRequest agent request s of (r, s') \<Rightarrow> (r, (s', t @ [request]))),
     dispose = (\<lambda>(s, t). (dispose agent s, t))\<rparr>"


text \<open>
  \<open>related R m m'\<close>: from states that \<open>R\<close> relates, \<open>m\<close> and \<open>m'\<close> return the same result
  or throw the same error, and leave states that \<open>R\<close> relates.
\<close>

definition related :: "('s \<Rightarrow> 't \<Rightarrow> bool) \<Rightarrow> ('s, 'a) prog \<Rightarrow> ('t, 'a) prog \<Rightarrow> bool" where
  "related R m m' \<longleftrightarrow>
     (\<forall>s s'. R s s' \<longrightarrow> fst (m s) = fst (m' s') \<and> R (snd (m s)) (snd (m' s')))"









text \<open>The commands of the handshake, as \<^verbatim>\<open>sign\<close> builds them.\<close>

definition handshake_head :: "string \<Rightarrow> string \<Rightarrow> Request list" where
  "handshake_head keygrip' sha1Hash =
     [fromCommand ''OPTION'' (Some ''pinentry-mode loopback''),
      fromCommand ''SIGKEY'' (Some keygrip'),
      fromCommand ''SETHASH'' (Some (''--hash=sha1 '' @ sha1Hash)),
      fromCommand ''PKSIGN'' None]"

section \<open>The codec\<close>

text \<open>
  Modelled from the spec: the Codec of the missing module \<^verbatim>\<open>./assuan\<close> (\<open>encodeData\<close>,
  \<open>decodeLine\<close>), after the specification's description of the wire protocol. Bytes and
  the characters of a line are both \<open>char\<close>, an 8-bit value.
\<close>

text \<open>The value of a hexadecimal digit, upper or lower case, and the upper-case digit of a value.\<close>

definition hexValue :: "char \<Rightarrow> nat option" where
  "hexValue c =
     (let n = (of_char c :: nat) in
      if 48 \<le> n \<and> n \<le> 57 then Some (n - 48)
      else if 65 \<le> n \<and> n \<le> 70 then Some (n - 55)
      else if 97 \<le> n \<and> n \<le> 102 then Some (n - 87)
      else None)"

definition hexDigit :: "nat \<Rightarrow> char" where
  "hexDigit n = (if n < 10 then char_of (48 + n) else char_of (55 + n))"

text \<open>
  \<open>encodeData\<close>: the bytes \<^verbatim>\<open>%\<close>, CR, LF and NUL become \<^verbatim>\<open>%XX\<close>; the escaped payload is
  split over lines of at most 1000 characters, the prefix \<^verbatim>\<open>D \<close> included, in order; an
  escape sequence is never cut by the split.
\<close>

definition escaped :: "char \<Rightarrow> bool" where
  "escaped c \<longleftrightarrow> c = CHR ''%'' \<or> c = CHR 0x0D \<or> c = CHR 0x0A \<or> c = CHR 0x00"

definition escapeByte :: "char \<Rightarrow> string" where
  "escapeByte c =
     (if escaped c
      then [CHR ''%'', hexDigit ((of_char c :: nat) div 16), hexDigit ((of_char c :: nat) mod 16)]
      else [c])"

fun pack :: "nat \<Rightarrow> string \<Rightarrow> string list \<Rightarrow> string list" where
  "pack cap line [] = [line]"
| "pack cap line (t # ts) =
     (if length line + length t \<le> cap then pack cap (line @ t) ts
      else line # pack cap t ts)"

definition encodeData :: "string \<Rightarrow> string list" where
  "encodeData bytes = map (\<lambda>payload. ''D '' @ payload) (pack 998 [] (map escapeByte bytes))"

text \<open>
  \<open>decodeLine\<close>: the inverse escaping, which fails with \<open>ParseError\<close> on a \<^verbatim>\<open>%\<close> that is
  not followed by two hexadecimal digits, and the classification of a line by its prefix.
  \<open>decodeData\<close> decodes the data lines of one payload and joins their bytes.
\<close>

fun unescape :: "string \<Rightarrow> error + string" where
  "unescape [] = Inr []"
| "unescape (c # cs) =
     (if c = CHR ''%'' then
        (case cs of
           h # l # rest \<Rightarrow>
             (case (hexValue h, hexValue l) of
                (Some a, Some b) \<Rightarrow>
                  (case unescape rest of
                     Inl e \<Rightarrow> Inl e
                   | Inr bytes \<Rightarrow> Inr (char_of (16 * a + b) # bytes))
              | _ \<Rightarrow> Inl ParseError)
         | _ \<Rightarrow> Inl ParseError)
      else
        (case unescape cs of
           Inl e \<Rightarrow> Inl e
         | Inr bytes \<Rightarrow> Inr (c # bytes)))"

definition parseNat :: "string \<Rightarrow> nat option" where
  "parseNat s =
     (if s \<noteq> [] \<and> list_all (\<lambda>c. 48 \<le> (of_char c :: nat) \<and> (of_char c :: nat) \<le> 57) s
      then Some (foldl (\<lambda>n c. 10 * n + (of_char c - 48)) 0 s)
      else None)"

definition decodeLine :: "string \<Rightarrow> error + Response" where
  "decodeLine line =
     (if line = ''OK'' then Inr (Ok [])
      else if startsWith line ''OK '' then Inr (Ok (drop 3 line))
      else if startsWith line ''ERR '' then
        (let rest = drop 4 line;
             code = takeWhile (\<lambda>c. c \<noteq> CHR '' '') rest;
             description = drop (Suc (length code)) rest
         in case parseNat code of
              None \<Rightarrow> Inl ParseError
            | Some n \<Rightarrow> Inr (ErrorResponse n description))
      else if startsWith line ''D '' then
        (case unescape (drop 2 line) of
           Inl e \<Rightarrow> Inl e
         | Inr bytes \<Rightarrow> Inr (RawData bytes))
      else if startsWith line ''S '' then
        (let rest = drop 2 line;
             keyword = takeWhile (\<lambda>c. c \<noteq> CHR '' '') rest
         in Inr (Information keyword (drop (Suc (length keyword)) rest)))
      else if startsWith line ''INQUIRE '' then Inr (Inquire (drop 8 line))
      else if startsWith line ''#'' then Inr (Comment (drop 1 line))
      else Inl ParseError)"

fun decodeData :: "string list \<Rightarrow> error + string" where
  "decodeData [] = Inr []"
| "decodeData (line # lines) =
     (case decodeLine line of
        Inl e \<Rightarrow> Inl e
      | Inr (RawData bytes) \<Rightarrow>
          (case decodeData lines of
             Inl e \<Rightarrow> Inl e
           | Inr tail \<Rightarrow> Inr (bytes @ tail))
      | Inr _ \<Rightarrow> Inl ParseError)"

section \<open>The extension: \<^verbatim>\<open>unlockByKey\<close> and \<^verbatim>\<open>KeyStatusManager\<close>\<close>

record KeyStatusEvent =
  keyId :: string
  isLocked :: bool

text \<open>
  The private fields of \<^verbatim>\<open>KeyStatusManager\<close> that \<^verbatim>\<open>unlockCurrentKey\<close> and \<^verbatim>\<open>syncStatus\<close>
  read or write, the lines written to the logger, the events handed to the registered
  update functions, and the world outside the extension: the external commands and the
  agent. The module \<^verbatim>\<open>./process\<close> is not among the sources: the results of the external
  commands are scripted in \<open>pending\<close>, read in order, and every command run is recorded
  in \<open>spawned\<close>. \<open>sessions\<close> holds the final client state of every handshake run so far.
\<close>

record 's env =
  pending :: "(error + string) list"
  spawned :: "(string \<times> string list \<times> string) list"
  sessions :: "'s list"
  activateFolder :: "string option"
  lastEvent :: "KeyStatusEvent option"
  keyOfFolders :: "string \<rightharpoonup> GpgKeyInfo"
  logged :: "string list"
  updated :: "KeyStatusEvent list"

definition textSpawn :: "string \<Rightarrow> string list \<Rightarrow> string \<Rightarrow> ('s env, string) prog" where
  "textSpawn command args input e =
     (case pending e of
        [] \<Rightarrow> (Inl IOError, e\<lparr>spawned := spawned e @ [(command, args, input)]\<rparr>)
      | r # rs \<Rightarrow> (r, e\<lparr>pending := rs, spawned := spawned e @ [(command, args, input)]\<rparr>))"

text \<open>\<^verbatim>\<open>isKeyUnlocked\<close>, lines 108 to 125.\<close>

definition isKeyUnlocked :: "string \<Rightarrow> ('s env, bool) prog" where
  "isKeyUnlocked keygrip' =
     bind (textSpawn ''gpg-connect-agent'' [] (''KEYINFO '' @ keygrip')) (\<lambda>outputs.
     lift (parseKeyInfo outputs))"

text \<open>
  \<^verbatim>\<open>s.trim()\<close> on text in ASCII: the six white-space characters of ASCII are stripped.
  \<^verbatim>\<open>String.prototype.trim\<close> also strips U+00A0 and the other white space of Unicode, which
  a sequence of bytes does not represent; the output of \<^verbatim>\<open>gpgconf\<close> trimmed here is a path
  followed by a line feed.
\<close>

definition isWhiteSpace :: "char \<Rightarrow> bool" where
  "isWhiteSpace c \<longleftrightarrow> c \<in> set [CHR '' '', CHR 0x09, CHR 0x0A, CHR 0x0B, CHR 0x0C, CHR 0x0D]"

definition trim :: "string \<Rightarrow> string" where
  "trim s = rev (dropWhile isWhiteSpace (rev (dropWhile isWhiteSpace s)))"

text \<open>\<^verbatim>\<open>getSocketPath\<close>, lines 16 to 21.\<close>

definition getSocketPath :: "('s env, string) prog" where
  "getSocketPath =
     bind (textSpawn ''gpgconf'' [''--list-dir'', ''agent-socket''] []) (\<lambda>outputs.
     lift (Inr (trim outputs)))"

definition SHA1_EMPTY_DIGEST :: string where
  "SHA1_EMPTY_DIGEST = ''da39a3ee5e6b4b0d3255bfef95601890afd80709''"

text \<open>
  \<^verbatim>\<open>unlockByKey\<close>, lines 169 to 174. \<open>connect socketPath\<close> is the client that
  \<^verbatim>\<open>new AssuanClient(logger, socketPath)\<close> builds.
\<close>

definition unlockByKey ::
  "'s AssuanClient \<Rightarrow> (string \<Rightarrow> 's) \<Rightarrow> string \<Rightarrow> string \<Rightarrow> ('s env, unit) prog" where
  "unlockByKey agent connect keygrip' passphrase =
     bind getSocketPath (\<lambda>socketPath e.
       case sign agent keygrip' passphrase SHA1_EMPTY_DIGEST (connect socketPath) of
         (r, a) \<Rightarrow> (r, e\<lparr>sessions := sessions e @ [a]\<rparr>))"

text \<open>
  \<^verbatim>\<open>err.message\<close>. The messages of the errors thrown by the sources are the sources'; the
  errors of the missing modules are shown by their names.
\<close>

fun message :: "error \<Rightarrow> string" where
  "message (AgentError m) = m"
| "message ParseError = ''Fail to parse KEYINFO output''"
| "message (KeyNotFound k) = ''Cannot find key with ID: '' @ k"
| "message UnhandledFlow = ''unhandled signing flow''"
| "message NoActiveFolder = ''No active folder''"
| "message NoKeyForFolder = ''No key for current folder''"
| "message (UnexpectedResponse expected actual) = ''UnexpectedResponse''"
| "message ProtocolViolation = ''ProtocolViolation''"
| "message SessionClosed = ''SessionClosed''"
| "message ConnectionError = ''ConnectionError''"
| "message IOError = ''IOError''"
| "message EndOfStream = ''EndOfStream''"

definition log :: "string \<Rightarrow> ('s env, unit) prog" where
  "log msg e = (Inr (), e\<lparr>logged := logged e @ [msg]\<rparr>)"

definition showBool :: "bool \<Rightarrow> string" where
  "showBool b = (if b then ''true'' else ''false'')"

text \<open>\<^verbatim>\<open>notifyUpdate\<close>, lines 219 to 225; the update functions receive the event.\<close>

definition notifyUpdate :: "KeyStatusEvent \<Rightarrow> ('s env, unit) prog" where
  "notifyUpdate event =
     bind (log (''New event, key: '' @ keyId event @ '', is locked: '' @ showBool (isLocked event)))
       (\<lambda>_.
     bind (log ''Trigger status update functions'') (\<lambda>_.
     (\<lambda>e. (Inr (), e\<lparr>updated := updated e @ [event]\<rparr>))))"

text \<open>
  \<^verbatim>\<open>syncStatus\<close>, lines 184 to 217. \<^verbatim>\<open>!this.#activateFolder\<close> holds of \<^verbatim>\<open>undefined\<close> and of the
  empty string. An error of the status query is caught and logged.
\<close>

definition syncStatus :: "('s env, unit) prog" where
  "syncStatus e =
     (case activateFolder e of
        None \<Rightarrow> (Inr (), e)
      | Some folder \<Rightarrow>
          if folder = [] then (Inr (), e)
          else
            (case keyOfFolders e folder of
               None \<Rightarrow> (Inr (), e)
             | Some keyInfo \<Rightarrow>
                 (case isKeyUnlocked (keygrip keyInfo) e of
                    (Inl error, e1) \<Rightarrow> log (''Fail to check key status: '' @ message error) e1
                  | (Inr isUnlocked, e1) \<Rightarrow>
                      let newEvent = \<lparr>keyId = fingerprint keyInfo, isLocked = \<not> isUnlocked\<rparr> in
                      if lastEvent e1 = None then
                        notifyUpdate newEvent (e1\<lparr>lastEvent := Some newEvent\<rparr>)
                      else if lastEvent e1 \<noteq> Some newEvent then
                        notifyUpdate newEvent (e1\<lparr>lastEvent := Some newEvent\<rparr>)
                      else (Inr (), e1))))"

text \<open>\<^verbatim>\<open>unlockCurrentKey\<close>, lines 268 to 287.\<close>

definition unlockCurrentKey ::
  "'s AssuanClient \<Rightarrow> (string \<Rightarrow> 's) \<Rightarrow> string \<Rightarrow> ('s env, unit) prog" where
  "unlockCurrentKey agent connect passphrase e =
     (case activateFolder e of
        None \<Rightarrow> (Inl NoActiveFolder, e)
      | Some folder \<Rightarrow>
          (case keyOfFolders e folder of
             None \<Rightarrow> (Inl NoKeyForFolder, e)
           | Some theKey \<Rightarrow>
               bind syncStatus (\<lambda>_.
               bind (isKeyUnlocked (keygrip theKey)) (\<lambda>unlocked.
                 if unlocked then
                   log ''Key is already unlocked, skip unlock request''
                 else
                   bind (log (''Try to unlock current key: '' @ fingerprint theKey)) (\<lambda>_.
                   bind (unlockByKey agent connect (keygrip theKey) passphrase) (\<lambda>_.
                   syncStatus)))) e))"

text \<open>A sample: one folder with one key, and an agent that asks for the passphrase.\<close>

definition sample_key :: GpgKeyInfo where
  "sample_key = \<lparr>type = ''pub'', capabilities = ''sc'', fingerprint = ''ABCFF00'', keygrip = ''CB18''\<rparr>"

definition keyinfo_output :: "string \<Rightarrow> string" where
  "keyinfo_output flag =
     join_tokens [''S'', ''KEYINFO'', ''CB18'', ''D'', ''-'', ''-'', flag, ''P'', ''-'', ''-'', ''-'']
       @ CHR 0x0A # ''OK''"

definition sample_env :: "(error + string) list \<Rightarrow> peer env" where
  "sample_env outputs =
     \<lparr>pending = outputs, spawned = [], sessions = [], activateFolder = Some ''/w'',
      lastEvent = None, keyOfFolders = [''/w'' \<mapsto> sample_key], logged = [], updated = []\<rparr>"

definition locked_agent :: "string \<Rightarrow> peer" where
  "locked_agent socketPath =
     \<lparr>reachable = True,
      incoming = [Ok [], Ok [], Ok [], Ok [], Information ''INQUIRE_MAXLEN'' ''255'',
        Inquire ''PASSPHRASE'', RawData ''sig'', Ok [], Ok ''closing connection''],
      sent = [], released = 0\<rparr>"

section \<open>Properties of the key catalog\<close>

lemma startsWith_iff: "startsWith s p \<longleftrightarrow> (\<exists>post. s = p @ post)"
  by (induction s p rule: startsWith.induct) auto

lemma includes_iff: "includes_sub s p \<longleftrightarrow> (\<exists>pre post. s = pre @ p @ post)"
proof (induction s)
  case Nil
  then show ?case by auto
next
  case (Cons c s)
  show ?case
  proof
    assume "includes_sub (c # s) p"
    then consider "startsWith (c # s) p" | "includes_sub s p" by auto
    then show "\<exists>pre post. c # s = pre @ p @ post"
    proof cases
      case 1
      then obtain post where "c # s = p @ post" by (auto simp: startsWith_iff)
      then have "c # s = [] @ p @ post" by simp
      then show ?thesis by blast
    next
      case 2
      then obtain pre post where "s = pre @ p @ post" using Cons.IH by blast
      then have "c # s = (c # pre) @ p @ post" by simp
      then show ?thesis by blast
    qed
  next
    assume "\<exists>pre post. c # s = pre @ p @ post"
    then obtain pre post where e: "c # s = pre @ p @ post" by blast
    show "includes_sub (c # s) p"
    proof (cases pre)
      case Nil
      with e have "startsWith (c # s) p" by (auto simp: startsWith_iff)
      then show ?thesis by simp
    next
      case (Cons a pre')
      with e have "s = pre' @ p @ post" by simp
      then have "includes_sub s p" using Cons.IH by blast
      then show ?thesis by simp
    qed
  qed
qed

text \<open>
  Claim C8. Resolution returns the first record, in the order of the list, whose fingerprint
  contains the identifier as a contiguous, case-sensitive substring: every record before it
  has a fingerprint that does not contain the identifier. It fails with \<open>KeyNotFound\<close>
  exactly when no record's fingerprint contains the identifier.
\<close>

theorem findKey_first_match:
  "(findKey infos ident = Inr r \<longleftrightarrow>
      (\<exists>before after. infos = before @ r # after
         \<and> (\<exists>pre post. fingerprint r = pre @ ident @ post)
         \<and> (\<forall>x \<in> set before. \<not> (\<exists>pre post. fingerprint x = pre @ ident @ post))))
   \<and> (findKey infos ident = Inl e \<longleftrightarrow>
      e = KeyNotFound ident
        \<and> (\<forall>x \<in> set infos. \<not> (\<exists>pre post. fingerprint x = pre @ ident @ post)))"
proof (induction infos)
  case Nil
  then show ?case by auto
next
  case (Cons info infos)
  show ?case
  proof (cases "includes_sub (fingerprint info) ident")
    case True
    then have hit: "\<exists>pre post. fingerprint info = pre @ ident @ post"
      by (simp add: includes_iff)
    have "findKey (info # infos) ident = Inr info" using True by simp
    moreover have "(\<exists>before after. info # infos = before @ r # after
         \<and> (\<exists>pre post. fingerprint r = pre @ ident @ post)
         \<and> (\<forall>x \<in> set before. \<not> (\<exists>pre post. fingerprint x = pre @ ident @ post)))
       \<longleftrightarrow> r = info" (is "?L \<longleftrightarrow> _")
    proof
      assume ?L
      then obtain before after where b: "info # infos = before @ r # after"
        and n: "\<forall>x \<in> set before. \<not> (\<exists>pre post. fingerprint x = pre @ ident @ post)"
        by blast
      show "r = info"
      proof (cases before)
        case Nil
        with b show ?thesis by simp
      next
        case (Cons y ys)
        with b have "y = info" by simp
        with n Cons hit show ?thesis by auto
      qed
    next
      assume "r = info"
      then have "info # infos = [] @ r # infos" by simp
      with hit \<open>r = info\<close> show ?L by (metis empty_iff list.set(1))
    qed
    ultimately show ?thesis using hit by auto
  next
    case False
    then have miss: "\<not> (\<exists>pre post. fingerprint info = pre @ ident @ post)"
      by (simp add: includes_iff)
    have step: "findKey (info # infos) ident = findKey infos ident" using False by simp
    have "(\<exists>before after. info # infos = before @ r # after
         \<and> (\<exists>pre post. fingerprint r = pre @ ident @ post)
         \<and> (\<forall>x \<in> set before. \<not> (\<exists>pre post. fingerprint x = pre @ ident @ post)))
       \<longleftrightarrow> (\<exists>before after. infos = before @ r # after
         \<and> (\<exists>pre post. fingerprint r = pre @ ident @ post)
         \<and> (\<forall>x \<in> set before. \<not> (\<exists>pre post. fingerprint x = pre @ ident @ post)))"
      (is "?L \<longleftrightarrow> ?R")
    proof
      assume ?L
      then obtain before after where b: "info # infos = before @ r # after"
        and h: "\<exists>pre post. fingerprint r = pre @ ident @ post"
        and n: "\<forall>x \<in> set before. \<not> (\<exists>pre post. fingerprint x = pre @ ident @ post)"
        by blast
      show ?R
      proof (cases before)
        case Nil
        with b have "r = info" by simp
        with h miss show ?thesis by simp
      next
        case (Cons y ys)
        with b have "infos = ys @ r # after" by simp
        moreover from n Cons
        have "\<forall>x \<in> set ys. \<not> (\<exists>pre post. fingerprint x = pre @ ident @ post)" by simp
        ultimately show ?thesis using h by blast
      qed
    next
      assume ?R
      then obtain before after where b: "infos = before @ r # after"
        and h: "\<exists>pre post. fingerprint r = pre @ ident @ post"
        and n: "\<forall>x \<in> set before. \<not> (\<exists>pre post. fingerprint x = pre @ ident @ post)"
        by blast
      from b have "info # infos = (info # before) @ r # after" by simp
      moreover from n miss
      have "\<forall>x \<in> set (info # before). \<not> (\<exists>pre post. fingerprint x = pre @ ident @ post)"
        by simp
      ultimately show ?L using h by blast
    qed
    with step miss Cons.IH show ?thesis by simp
  qed
qed

theorem findKey_first_match_witness:
  "findKey
     [\<lparr>type = ''pub'', capabilities = ''sc'', fingerprint = ''11AA22'', keygrip = ''G1''\<rparr>,
      \<lparr>type = ''sub'', capabilities = ''e'', fingerprint = ''0ABCFF00'', keygrip = ''G2''\<rparr>,
      \<lparr>type = ''sub'', capabilities = ''s'', fingerprint = ''ABCFF009'', keygrip = ''G3''\<rparr>]
     ''ABCFF00''
   = Inr \<lparr>type = ''sub'', capabilities = ''e'', fingerprint = ''0ABCFF00'', keygrip = ''G2''\<rparr>
   \<and> findKey
     [\<lparr>type = ''pub'', capabilities = ''sc'', fingerprint = ''11AA22'', keygrip = ''G1''\<rparr>]
     ''abcff00'' = Inl (KeyNotFound ''abcff00'')"
  using findKey_first_match
    [of "[\<lparr>type = ''pub'', capabilities = ''sc'', fingerprint = ''11AA22'', keygrip = ''G1''\<rparr>,
      \<lparr>type = ''sub'', capabilities = ''e'', fingerprint = ''0ABCFF00'', keygrip = ''G2''\<rparr>,
      \<lparr>type = ''sub'', capabilities = ''s'', fingerprint = ''ABCFF009'', keygrip = ''G3''\<rparr>]"
      "''ABCFF00''"
      "\<lparr>type = ''sub'', capabilities = ''e'', fingerprint = ''0ABCFF00'', keygrip = ''G2''\<rparr>"]
  by simp

section \<open>Properties of the status query\<close>

lemma split_str_nonempty: "split_str c s \<noteq> []"
  by (induction s) (auto split: list.splits)

lemma split_str_no_sep: "c \<notin> set s \<Longrightarrow> split_str c s = [s]"
  by (induction s) auto

lemma split_str_append:
  "c \<notin> set s \<Longrightarrow> split_str c (s @ c # rest) = s # split_str c rest"
  by (induction s) auto

lemma split_str_join_tokens:
  "ts \<noteq> [] \<Longrightarrow> \<forall>t \<in> set ts. CHR '' '' \<notin> set t \<Longrightarrow>
   split_str CHR '' '' (join_tokens ts) = ts"
proof (induction ts rule: join_tokens.induct)
  case 1
  then show ?case by simp
next
  case (2 t)
  then show ?case by (simp add: split_str_no_sep)
next
  case (3 t u ts)
  then show ?case by (simp add: split_str_append)
qed

lemma join_tokens_no_newline:
  "\<forall>t \<in> set ts. CHR 0x0A \<notin> set t \<Longrightarrow> CHR 0x0A \<notin> set (join_tokens ts)"
  by (induction ts rule: join_tokens.induct) auto

text \<open>
  Claim C9. The status line is the first line of the command's output and its tokens are
  the pieces between single spaces (\<^verbatim>\<open>line.split(' ')\<close>). For a status line of any
  tokens \<open>ts\<close>: when their number is not 11 the query raises \<open>ParseError\<close>; when it is
  11 the query returns \<open>True\<close> exactly when the token at index 6 is the string \<open>1\<close>.
\<close>

theorem parseKeyInfo_tokens:
  assumes "\<forall>t \<in> set ts. CHR '' '' \<notin> set t \<and> CHR 0x0A \<notin> set t"
  shows "parseKeyInfo (join_tokens ts @ CHR 0x0A # rest) =
    (if length ts \<noteq> 11 then Inl ParseError else Inr (ts ! 6 = ''1''))"
proof -
  let ?line = "join_tokens ts"
  have nl: "CHR 0x0A \<notin> set ?line"
    using assms by (simp add: join_tokens_no_newline)
  have lines: "split_str CHR 0x0A (?line @ CHR 0x0A # rest) = ?line # split_str CHR 0x0A rest"
    using nl by (rule split_str_append)
  have two: "length (split_str CHR 0x0A (?line @ CHR 0x0A # rest)) \<noteq> 1"
    using lines split_str_nonempty [of "CHR 0x0A" rest] by simp
  show ?thesis
  proof (cases "ts = []")
    case True
    then show ?thesis using two lines by (simp add: parseKeyInfo_def Let_def)
  next
    case False
    then have "split_str CHR '' '' ?line = ts"
      using assms by (simp add: split_str_join_tokens)
    then show ?thesis using two lines by (simp add: parseKeyInfo_def Let_def)
  qed
qed

theorem parseKeyInfo_tokens_witness:
  "parseKeyInfo (join_tokens [''S'', ''KEYINFO'', ''CB18328AD05158F9'', ''D'', ''-'', ''-'',
       ''1'', ''P'', ''-'', ''-'', ''-''] @ CHR 0x0A # ''OK'') = Inr True
   \<and> parseKeyInfo (join_tokens [''S'', ''KEYINFO'', ''CB18328AD05158F9'', ''D'', ''-'', ''-'',
       ''-'', ''P'', ''-'', ''-'', ''-''] @ CHR 0x0A # ''OK'') = Inr False
   \<and> parseKeyInfo (join_tokens [''ERR'', ''67108891'', ''Not'', ''found'']
       @ CHR 0x0A # []) = Inl ParseError"
  using parseKeyInfo_tokens [of "[''S'', ''KEYINFO'', ''CB18328AD05158F9'', ''D'', ''-'', ''-'',
       ''1'', ''P'', ''-'', ''-'', ''-'']" "''OK''"]
    parseKeyInfo_tokens [of "[''S'', ''KEYINFO'', ''CB18328AD05158F9'', ''D'', ''-'', ''-'',
       ''-'', ''P'', ''-'', ''-'', ''-'']" "''OK''"]
    parseKeyInfo_tokens [of "[''ERR'', ''67108891'', ''Not'', ''found'']" "[]"]
  by simp

section \<open>Properties of the signing handshake\<close>

lemma bind_Inr [simp]: "m s = (Inr a, s') \<Longrightarrow> bind m f s = f a s'"
  by (simp add: bind_def)

lemma bind_Inl [simp]: "m s = (Inl e, s') \<Longrightarrow> bind m f s = (Inl e, s')"
  by (simp add: bind_def)

lemma scripted_simps [simp]:
  "initialize scripted = peer_initialize"
  "receiveResponse scripted = peer_receiveResponse"
  "sendRequest scripted = peer_sendRequest"
  "dispose scripted = peer_dispose"
  by (simp_all add: scripted_def)

lemma strict_simps [simp]:
  "initialize strict = session_initialize"
  "receiveResponse strict = session_receiveResponse"
  "sendRequest strict = session_sendRequest"
  "dispose strict = session_dispose"
  by (simp_all add: strict_def)

lemma peer_expect_hit:
  "nextResponse (incoming p) = Some (r, rest) \<Longrightarrow> getType r = t \<Longrightarrow>
   expect scripted t p = (Inr (), p\<lparr>incoming := rest\<rparr>)"
  by (simp add: expect_def bind_def peer_receiveResponse_def lift_def checkType_def)

lemma peer_expect_miss:
  "nextResponse (incoming p) = Some (r, rest) \<Longrightarrow> getType r \<noteq> t \<Longrightarrow>
   expect scripted t p = (Inl (UnexpectedResponse t (getType r)), p\<lparr>incoming := rest\<rparr>)"
  by (simp add: expect_def bind_def peer_receiveResponse_def lift_def checkType_def)

text \<open>
  Claim C2. The peer answers the greeting, \<^verbatim>\<open>OPTION\<close>, \<^verbatim>\<open>SIGKEY\<close> and \<^verbatim>\<open>SETHASH\<close> with Ok
  and \<^verbatim>\<open>PKSIGN\<close> with RawData then Ok. Whatever it sends afterwards, the requests of the run
  are the four commands and \<^verbatim>\<open>BYE\<close>: no RawData request and no \<^verbatim>\<open>END\<close>. When the peer
  acknowledges \<^verbatim>\<open>BYE\<close> with Ok, as the script of the handshake expects, the run succeeds,
  having consumed exactly these seven responses.
\<close>

theorem sign_unlocked_key:
  "sent (snd (sign scripted k p h
     \<lparr>reachable = True, incoming = [Ok g, Ok a, Ok b, Ok c, RawData sig, Ok d] @ rest,
      sent = [], released = n\<rparr>))
     = handshake_head k h @ [fromCommand ''BYE'' None]
   \<and> sign scripted k p h
     \<lparr>reachable = True, incoming = [Ok g, Ok a, Ok b, Ok c, RawData sig, Ok d, Ok e] @ rest,
      sent = [], released = n\<rparr>
     = (Inr (), \<lparr>reachable = True, incoming = rest,
          sent = handshake_head k h @ [fromCommand ''BYE'' None], released = Suc n\<rparr>)"
  by (simp add: sign_def sign_body_def pksign_branch_def try_finally_def expect_def bind_def
      lift_def checkType_def peer_initialize_def peer_receiveResponse_def peer_sendRequest_def
      peer_dispose_def handshake_head_def split: option.splits sum.splits prod.splits)

text \<open>
  Claim C1. The peer answers the greeting, \<^verbatim>\<open>OPTION\<close>, \<^verbatim>\<open>SIGKEY\<close> and \<^verbatim>\<open>SETHASH\<close> with Ok
  and \<^verbatim>\<open>PKSIGN\<close> with Information \<^verbatim>\<open>INQUIRE_MAXLEN\<close> then Inquire \<^verbatim>\<open>PASSPHRASE\<close>; it then
  returns the signature as RawData followed by Ok, and acknowledges \<^verbatim>\<open>BYE\<close>. The run sends
  the four commands, then exactly one RawData request, whose bytes are the passphrase,
  then \<^verbatim>\<open>END\<close>, then \<^verbatim>\<open>BYE\<close>; it consumes the nine responses and succeeds.
\<close>

theorem sign_locked_key:
  "sign scripted k p h
     \<lparr>reachable = True,
      incoming = [Ok g, Ok a, Ok b, Ok c, Information ''INQUIRE_MAXLEN'' t,
        Inquire ''PASSPHRASE'', RawData sig, Ok d, Ok e] @ rest,
      sent = [], released = n\<rparr>
   = (Inr (), \<lparr>reachable = True, incoming = rest,
        sent = handshake_head k h
          @ [fromRawData p, fromCommand ''END'' None, fromCommand ''BYE'' None],
        released = Suc n\<rparr>)"
  by (simp add: sign_def sign_body_def pksign_branch_def try_finally_def expect_def bind_def
      lift_def checkType_def peer_initialize_def peer_receiveResponse_def peer_sendRequest_def
      peer_dispose_def handshake_head_def)

text \<open>
  Claim C5 (on the Session as the specification words it). \<^verbatim>\<open>sendRequest\<close> on a Session
  in state \<open>AwaitingResponse\<close> fails with \<open>ProtocolViolation\<close> and changes nothing; and
  from \<open>Ready\<close>, two calls of \<^verbatim>\<open>sendRequest\<close> in a row, with no \<^verbatim>\<open>receiveResponse\<close>
  between them, end in \<open>ProtocolViolation\<close> with only the first request written.
\<close>

theorem sendRequest_awaiting_response:
  "(state s = AwaitingResponse \<longrightarrow> sendRequest strict r s = (Inl ProtocolViolation, s))
   \<and> (state s = Ready \<longrightarrow>
        bind (sendRequest strict r1) (\<lambda>_. sendRequest strict r2) s
          = (Inl ProtocolViolation,
             s\<lparr>state := AwaitingResponse,
               transport := (transport s)\<lparr>sent := sent (transport s) @ [r1]\<rparr>\<rparr>))"
  by (simp add: session_sendRequest_def peer_sendRequest_def bind_def)

theorem sendRequest_awaiting_response_witness:
  "sendRequest strict (fromCommand ''END'' None)
     \<lparr>state = AwaitingResponse,
      transport = \<lparr>reachable = True, incoming = [], sent = [fromRawData ''pw''], released = 0\<rparr>\<rparr>
   = (Inl ProtocolViolation,
     \<lparr>state = AwaitingResponse,
      transport = \<lparr>reachable = True, incoming = [], sent = [fromRawData ''pw''], released = 0\<rparr>\<rparr>)
   \<and> fst (bind (sendRequest strict (fromRawData ''pw''))
          (\<lambda>_. sendRequest strict (fromCommand ''END'' None))
        \<lparr>state = Ready,
         transport = \<lparr>reachable = True, incoming = [], sent = [], released = 0\<rparr>\<rparr>)
     = Inl ProtocolViolation"
  using sendRequest_awaiting_response
    [of "\<lparr>state = AwaitingResponse,
      transport = \<lparr>reachable = True, incoming = [], sent = [fromRawData ''pw''], released = 0\<rparr>\<rparr>"
      "fromCommand ''END'' None"]
    sendRequest_awaiting_response
    [of "\<lparr>state = Ready,
         transport = \<lparr>reachable = True, incoming = [], sent = [], released = 0\<rparr>\<rparr>"
      _ "fromRawData ''pw''" "fromCommand ''END'' None"]
  by simp

text \<open>
  On that Session the locked-key branch of \<^verbatim>\<open>sign\<close> cannot succeed: lines 62 and 63 send
  the passphrase and then \<^verbatim>\<open>END\<close> with no \<^verbatim>\<open>receiveResponse\<close> between them, so the second
  send is the call that the rule rejects. The handshake of claim C1 needs a client that
  accepts it, as the scripted peer does.
\<close>

lemma sign_strict_locked_key:
  "sign strict k p h
     \<lparr>state = Created,
      transport = \<lparr>reachable = True,
        incoming = [Ok g, Ok a, Ok b, Ok c, Information ''INQUIRE_MAXLEN'' t,
          Inquire ''PASSPHRASE'', RawData sig, Ok d, Ok e] @ rest,
        sent = [], released = n\<rparr>\<rparr>
   = (Inl ProtocolViolation,
     \<lparr>state = Closed,
      transport = \<lparr>reachable = True, incoming = [RawData sig, Ok d, Ok e] @ rest,
        sent = handshake_head k h @ [fromRawData p], released = Suc n\<rparr>\<rparr>)"
  by (simp add: sign_def sign_body_def pksign_branch_def try_finally_def expect_def bind_def
      lift_def checkType_def peer_receiveResponse_def peer_sendRequest_def peer_dispose_def
      handshake_head_def session_initialize_def session_receiveResponse_def
      session_sendRequest_def session_dispose_def)

subsection \<open>Disposal\<close>

lemma counted_count: "snd (snd (counted m (s, n))) = n"
  by (simp add: counted_def split: prod.splits)

lemma counting_simps [simp]:
  "initialize (counting c) = counted (initialize c)"
  "receiveResponse (counting c) = counted (receiveResponse c)"
  "sendRequest (counting c) r = counted (sendRequest c r)"
  "dispose (counting c) = (\<lambda>(s, n). (dispose c s, Suc n))"
  by (simp_all add: counting_def)

lemma bind_count:
  assumes "\<And>s n. snd (snd (m (s, n))) = n" and "\<And>a s n. snd (snd (f a (s, n))) = n"
  shows "snd (snd (bind m f (s, n))) = n"
proof -
  obtain r s' n' where run: "m (s, n) = (r, (s', n'))" by (metis surj_pair)
  have "n' = n" using assms(1) [of s n] run by simp
  then show ?thesis using run assms(2) by (cases r) (simp_all add: bind_def)
qed

lemma lift_count: "snd (snd (lift r (s, n))) = n"
  by (simp add: lift_def)

lemma expect_count: "snd (snd (expect (counting c) t (s, n))) = n"
  unfolding expect_def by (rule bind_count) (simp_all add: counted_count lift_count)

lemma pksign_branch_count: "snd (snd (pksign_branch (counting c) p t (s, n))) = n"
  unfolding pksign_branch_def
  by (auto intro!: bind_count simp: counted_count lift_count expect_count)

lemma sign_body_count: "snd (snd (sign_body (counting c) k p h (s, n))) = n"
  unfolding sign_body_def
  by (intro bind_count) (simp_all add: counted_count lift_count expect_count pksign_branch_count)

text \<open>
  Claim C4, as amended. For every client, whatever its operations return or throw at any
  step: when \<^verbatim>\<open>initialize\<close> has succeeded, \<^verbatim>\<open>dispose\<close> has been called exactly once when
  \<^verbatim>\<open>sign\<close> returns or throws; when \<^verbatim>\<open>initialize\<close> itself throws, \<^verbatim>\<open>dispose\<close> has not been
  called. The counter is part of the state that \<^verbatim>\<open>sign\<close> returns with its result.
\<close>

theorem sign_disposes_once:
  "snd (snd (sign (counting c) k p h (s, n))) =
     (case fst (initialize c s) of Inl e \<Rightarrow> n | Inr u \<Rightarrow> Suc n)"
proof -
  obtain r s' where init: "initialize c s = (r, s')" by (metis surj_pair)
  show ?thesis
  proof (cases r)
    case (Inl e)
    then show ?thesis using init by (simp add: sign_def bind_def counted_def)
  next
    case (Inr u)
    obtain r2 s2 n2 where b: "sign_body (counting c) k p h (s', n) = (r2, (s2, n2))"
      by (metis surj_pair)
    have "n2 = n" using sign_body_count [of c k p h s' n] b by simp
    then show ?thesis using init Inr b
      by (simp add: sign_def bind_def counted_def try_finally_def)
  qed
qed

text \<open>
  Claim C4 as stated fails where the connection cannot be opened: \<^verbatim>\<open>sign\<close> throws the
  error of \<^verbatim>\<open>initialize\<close> and the client that the constructor built is never disposed.
\<close>

theorem sign_unreachable_not_disposed:
  "sign (counting scripted) ''CB18'' ''pw'' ''da39''
     (\<lparr>reachable = False, incoming = [], sent = [], released = 0\<rparr>, 0)
   = (Inl ConnectionError, (\<lparr>reachable = False, incoming = [], sent = [], released = 0\<rparr>, 0))"
  by (simp add: sign_def bind_def counted_def peer_initialize_def)

section \<open>Properties of \<^verbatim>\<open>unlockCurrentKey\<close>\<close>

lemma textSpawn_sessions: "sessions (snd (textSpawn c a i e)) = sessions e"
  by (simp add: textSpawn_def split: list.splits)

lemma isKeyUnlocked_sessions: "sessions (snd (isKeyUnlocked k e)) = sessions e"
proof -
  obtain r e' where t: "textSpawn ''gpg-connect-agent'' [] (''KEYINFO '' @ k) e = (r, e')"
    by (metis surj_pair)
  then have "sessions e' = sessions e" using textSpawn_sessions [of "''gpg-connect-agent''" "[]" "''KEYINFO '' @ k" e] by simp
  then show ?thesis using t by (cases r) (simp_all add: isKeyUnlocked_def bind_def lift_def)
qed

lemma notifyUpdate_sessions: "sessions (snd (notifyUpdate ev e)) = sessions e"
  by (simp add: notifyUpdate_def bind_def log_def)

lemma syncStatus_sessions: "sessions (snd (syncStatus e)) = sessions e"
proof -
  have k: "\<And>k r e1. isKeyUnlocked k e = (r, e1) \<Longrightarrow> sessions e1 = sessions e"
    using isKeyUnlocked_sessions by (metis snd_conv)
  show ?thesis
    by (auto simp: syncStatus_def Let_def log_def notifyUpdate_sessions dest!: k
        split: option.splits prod.splits sum.splits)
qed

lemma syncStatus_ok: "fst (syncStatus e) = Inr ()"
  by (auto simp: syncStatus_def Let_def log_def notifyUpdate_def bind_def
        split: option.splits prod.splits sum.splits)


lemma unlockCurrentKey_sessions_other:
  assumes "sessions (snd (unlockCurrentKey agent connect passphrase e)) \<noteq> sessions e"
  shows "\<exists>folder theKey e2. activateFolder e = Some folder \<and> keyOfFolders e folder = Some theKey
       \<and> isKeyUnlocked (keygrip theKey) (snd (syncStatus e)) = (Inr False, e2)"
proof -
  obtain folder where f: "activateFolder e = Some folder"
    using assms by (cases "activateFolder e") (simp_all add: unlockCurrentKey_def)
  obtain theKey where k: "keyOfFolders e folder = Some theKey"
    using assms f by (cases "keyOfFolders e folder") (simp_all add: unlockCurrentKey_def)
  obtain e1 where s: "syncStatus e = (Inr (), e1)"
    using syncStatus_ok [of e] by (metis prod.collapse)
  have s1: "sessions e1 = sessions e" using syncStatus_sessions [of e] s by simp
  obtain r e2 where q: "isKeyUnlocked (keygrip theKey) e1 = (r, e2)" by (metis surj_pair)
  have s2: "sessions e2 = sessions e1" using isKeyUnlocked_sessions [of "keygrip theKey" e1] q by simp
  have "r = Inr False"
  proof (cases r)
    case (Inl err)
    then show ?thesis using assms f k s q s1 s2 by (simp add: unlockCurrentKey_def)
  next
    case (Inr b)
    then show ?thesis using assms f k s q s1 s2 by (cases b) (simp_all add: unlockCurrentKey_def log_def)
  qed
  then show ?thesis using f k s q by simp
qed

lemmas run_defs = unlockCurrentKey_def sample_env_def sample_key_def keyinfo_output_def syncStatus_def
    isKeyUnlocked_def textSpawn_def bind_def lift_def parseKeyInfo_def log_def notifyUpdate_def showBool_def Let_def
    unlockByKey_def getSocketPath_def trim_def isWhiteSpace_def SHA1_EMPTY_DIGEST_def locked_agent_def
    sign_def sign_body_def pksign_branch_def try_finally_def expect_def 
      checkType_def peer_initialize_def peer_receiveResponse_def peer_sendRequest_def
      peer_dispose_def

text \<open>
  Claim C10. When the status query that follows \<^verbatim>\<open>syncStatus\<close> reports the current key as
  unlocked, \<^verbatim>\<open>unlockCurrentKey\<close> returns successfully; the state it leaves is the state after
  that query with one more log line, so it depends neither on the passphrase nor on the
  agent, and no session has been opened. Conversely, whenever a run of \<^verbatim>\<open>unlockCurrentKey\<close>
  has opened a session, that status query had reported the key as locked.
\<close>

theorem unlockCurrentKey_skips_handshake:
  "(activateFolder e = Some folder \<and> keyOfFolders e folder = Some theKey
      \<and> isKeyUnlocked (keygrip theKey) (snd (syncStatus e)) = (Inr True, e2)
    \<longrightarrow> unlockCurrentKey agent connect passphrase e
          = (Inr (), e2\<lparr>logged := logged e2 @ [''Key is already unlocked, skip unlock request'']\<rparr>)
        \<and> sessions e2 = sessions e)
   \<and> (sessions (snd (unlockCurrentKey agent connect passphrase e)) \<noteq> sessions e
    \<longrightarrow> (\<exists>folder theKey e2. activateFolder e = Some folder \<and> keyOfFolders e folder = Some theKey
          \<and> isKeyUnlocked (keygrip theKey) (snd (syncStatus e)) = (Inr False, e2)))"
proof (intro conjI impI)
  assume a: "activateFolder e = Some folder \<and> keyOfFolders e folder = Some theKey
      \<and> isKeyUnlocked (keygrip theKey) (snd (syncStatus e)) = (Inr True, e2)"
  obtain e1 where s: "syncStatus e = (Inr (), e1)"
    using syncStatus_ok [of e] by (metis prod.collapse)
  then have q: "isKeyUnlocked (keygrip theKey) e1 = (Inr True, e2)" using a by simp
  show "unlockCurrentKey agent connect passphrase e
          = (Inr (), e2\<lparr>logged := logged e2 @ [''Key is already unlocked, skip unlock request'']\<rparr>)"
    using a s q by (simp add: unlockCurrentKey_def log_def)
  have "sessions e1 = sessions e" using syncStatus_sessions [of e] s by simp
  moreover have "sessions e2 = sessions e1"
    using isKeyUnlocked_sessions [of "keygrip theKey" e1] q by simp
  ultimately show "sessions e2 = sessions e" by simp
next
  assume "sessions (snd (unlockCurrentKey agent connect passphrase e)) \<noteq> sessions e"
  then show "\<exists>folder theKey e2. activateFolder e = Some folder \<and> keyOfFolders e folder = Some theKey
          \<and> isKeyUnlocked (keygrip theKey) (snd (syncStatus e)) = (Inr False, e2)"
    by (rule unlockCurrentKey_sessions_other)
qed

theorem unlockCurrentKey_skips_handshake_witness:
  "fst (unlockCurrentKey scripted locked_agent ''pw''
      (sample_env [Inr (keyinfo_output ''1''), Inr (keyinfo_output ''1'')])) = Inr ()
   \<and> sessions (snd (unlockCurrentKey scripted locked_agent ''pw''
      (sample_env [Inr (keyinfo_output ''1''), Inr (keyinfo_output ''1'')]))) = []
   \<and> map sent (sessions (snd (unlockCurrentKey scripted locked_agent ''pw''
      (sample_env [Inr (keyinfo_output ''-''), Inr (keyinfo_output ''-''),
         Inr ''/run/user/1000/gnupg/S.gpg-agent'', Inr (keyinfo_output ''1'')]))))
     = [handshake_head ''CB18'' SHA1_EMPTY_DIGEST
         @ [fromRawData ''pw'', fromCommand ''END'' None, fromCommand ''BYE'' None]]
   \<and> fst (isKeyUnlocked ''CB18'' (snd (syncStatus
      (sample_env [Inr (keyinfo_output ''-''), Inr (keyinfo_output ''-''),
         Inr ''/run/user/1000/gnupg/S.gpg-agent'', Inr (keyinfo_output ''1'')] :: peer env)))) = Inr False"
  using unlockCurrentKey_skips_handshake
    [of "sample_env [Inr (keyinfo_output ''1''), Inr (keyinfo_output ''1'')]" "''/w''" sample_key
      "snd (isKeyUnlocked ''CB18'' (snd (syncStatus
         (sample_env [Inr (keyinfo_output ''1''), Inr (keyinfo_output ''1'')]))))"
      scripted locked_agent "''pw''"]
    unlockCurrentKey_skips_handshake
    [of "sample_env [Inr (keyinfo_output ''-''), Inr (keyinfo_output ''-''),
         Inr ''/run/user/1000/gnupg/S.gpg-agent'', Inr (keyinfo_output ''1'')]" _ _ _
      scripted locked_agent "''pw''"]
  by (simp add: run_defs handshake_head_def)

section \<open>Properties of the codec\<close>

lemma hexValue_hexDigit: "n < 16 \<Longrightarrow> hexValue (hexDigit n) = Some n"
  by (simp add: hexValue_def hexDigit_def)

lemma unescape_escapeByte:
  "unescape (escapeByte c @ rest) =
     (case unescape rest of Inl e \<Rightarrow> Inl e | Inr bytes \<Rightarrow> Inr (c # bytes))"
proof (cases "escaped c")
  case True
  have d: "(of_char c :: nat) div 16 < 16"
    using nat_of_char_less_256 [of c] by (simp add: less_mult_imp_div_less)
  have "char_of (16 * ((of_char c :: nat) div 16) + (of_char c :: nat) mod 16) = c"
    by simp
  then show ?thesis using True d
    by (simp add: escapeByte_def hexValue_hexDigit split: sum.splits)
next
  case False
  then have "c \<noteq> CHR ''%''" by (auto simp: escaped_def)
  then show ?thesis using False by (simp add: escapeByte_def)
qed

lemma unescape_escape: "unescape (concat (map escapeByte bs)) = Inr bs"
  by (induction bs) (simp_all add: unescape_escapeByte)

lemma decodeLine_D: "decodeLine (CHR ''D'' # CHR '' '' # payload) =
   (case unescape payload of Inl e \<Rightarrow> Inl e | Inr bytes \<Rightarrow> Inr (RawData bytes))"
  by (simp add: decodeLine_def)

lemma decode_pack:
  "decodeData (map (\<lambda>payload. ''D '' @ payload)
      (pack cap (concat (map escapeByte pre)) (map escapeByte bs))) = Inr (pre @ bs)"
proof (induction bs arbitrary: pre)
  case Nil
  then show ?case by (simp add: decodeLine_D unescape_escape)
next
  case (Cons b bs)
  have fits: "decodeData (map (\<lambda>payload. ''D '' @ payload)
      (pack cap (concat (map escapeByte (pre @ [b]))) (map escapeByte bs))) = Inr ((pre @ [b]) @ bs)"
    by (rule Cons.IH)
  have fresh: "decodeData (map (\<lambda>payload. ''D '' @ payload)
      (pack cap (concat (map escapeByte [b])) (map escapeByte bs))) = Inr ([b] @ bs)"
    by (rule Cons.IH)
  show ?case
  proof (cases "length (concat (map escapeByte pre)) + length (escapeByte b) \<le> cap")
    case True
    then show ?thesis using fits by simp
  next
    case False
    then show ?thesis using fresh by (simp add: decodeLine_D unescape_escape)
  qed
qed

lemma unescape_malformed:
  assumes "\<not> (\<exists>h l r. rest = h # l # r \<and> hexValue h \<noteq> None \<and> hexValue l \<noteq> None)"
  shows "unescape (pre @ CHR ''%'' # rest) = Inl ParseError"
proof (induction pre rule: length_induct)
  case (1 pre)
  show ?case
  proof (cases pre)
    case Nil
    then show ?thesis using assms
      by (cases rest) (auto split: list.splits option.splits)
  next
    case (Cons c cs)
    show ?thesis
    proof (cases "c = CHR ''%''")
      case False
      have "unescape (cs @ CHR ''%'' # rest) = Inl ParseError" using 1 Cons by simp
      then show ?thesis using Cons False by simp
    next
      case True
      show ?thesis
      proof (cases cs)
        case Nil
        then show ?thesis using Cons True
          by (cases rest) (simp_all add: hexValue_def split: option.splits)
      next
        case c1: (Cons h cs1)
        show ?thesis
        proof (cases cs1)
          case Nil
          then show ?thesis using Cons True c1 by (simp add: hexValue_def split: option.splits)
        next
          case c2: (Cons l cs2)
          have "unescape (cs2 @ CHR ''%'' # rest) = Inl ParseError" using 1 Cons c1 c2 by simp
          then show ?thesis using Cons True c1 c2 by (simp split: option.splits)
        qed
      qed
    qed
  qed
qed

lemma pack_lengths:
  "length line \<le> cap \<Longrightarrow> \<forall>t \<in> set ts. length t \<le> cap \<Longrightarrow>
   \<forall>l \<in> set (pack cap line ts). length l \<le> cap"
proof (induction ts arbitrary: line)
  case Nil
  then show ?case by simp
next
  case (Cons t ts)
  show ?case
  proof (cases "length line + length t \<le> cap")
    case True
    then have "length (line @ t) \<le> cap" by simp
    then have "\<forall>l \<in> set (pack cap (line @ t) ts). length l \<le> cap"
      using Cons.IH [of "line @ t"] Cons.prems(2) by simp
    then show ?thesis using True by simp
  next
    case False
    have "\<forall>l \<in> set (pack cap t ts). length l \<le> cap"
      using Cons.IH [of t] Cons.prems(2) by simp
    then show ?thesis using False Cons.prems(1) by simp
  qed
qed

lemma encodeData_cap: "\<forall>line \<in> set (encodeData b). length line \<le> 1000"
proof -
  have "\<forall>t \<in> set (map escapeByte b). length t \<le> 998" by (auto simp: escapeByte_def)
  then have "\<forall>l \<in> set (pack 998 [] (map escapeByte b)). length l \<le> 998"
    using pack_lengths [of "[]" 998 "map escapeByte b"] by simp
  then show ?thesis by (auto simp: encodeData_def)
qed

text \<open>
  Claim C3 (on the codec as the specification words it). Decoding the data lines that
  encode any byte string \<open>b\<close> gives back \<open>b\<close>: every byte value is allowed in \<open>b\<close>, and
  \<open>b\<close> may be empty. A data line with a \<^verbatim>\<open>%\<close> that is not followed by two hexadecimal
  digits, wherever it stands in the line, fails to decode with \<open>ParseError\<close>.
\<close>

theorem decodeData_encodeData:
  "decodeData (encodeData b) = Inr b
   \<and> (\<not> (\<exists>h l r. rest = h # l # r \<and> hexValue h \<noteq> None \<and> hexValue l \<noteq> None)
      \<longrightarrow> decodeLine (''D '' @ pre @ CHR ''%'' # rest) = Inl ParseError)"
proof
  show "decodeData (encodeData b) = Inr b"
    using decode_pack [of 998 "[]" b] by (simp add: encodeData_def)
next
  show "\<not> (\<exists>h l r. rest = h # l # r \<and> hexValue h \<noteq> None \<and> hexValue l \<noteq> None)
      \<longrightarrow> decodeLine (''D '' @ pre @ CHR ''%'' # rest) = Inl ParseError"
  proof
    assume "\<not> (\<exists>h l r. rest = h # l # r \<and> hexValue h \<noteq> None \<and> hexValue l \<noteq> None)"
    then have "unescape (pre @ CHR ''%'' # rest) = Inl ParseError"
      by (rule unescape_malformed)
    then show "decodeLine (''D '' @ pre @ CHR ''%'' # rest) = Inl ParseError"
      by (simp add: decodeLine_D)
  qed
qed

theorem decodeData_encodeData_witness:
  "decodeData (encodeData [CHR ''a'', CHR ''%'', CHR 0x0D, CHR 0x0A, CHR 0x00, CHR ''%''])
     = Inr [CHR ''a'', CHR ''%'', CHR 0x0D, CHR 0x0A, CHR 0x00, CHR ''%'']
   \<and> decodeData (encodeData []) = Inr []
   \<and> decodeLine ''D ab%4G'' = Inl ParseError
   \<and> decodeLine ''D %25%'' = Inl ParseError"
  using decodeData_encodeData [of "[CHR ''a'', CHR ''%'', CHR 0x0D, CHR 0x0A, CHR 0x00, CHR ''%'']"
      "''4G''" "''ab''"]
    decodeData_encodeData [of "[]" "[]" "''%25''"]
  by (simp add: hexValue_def)

section \<open>Properties of \<^verbatim>\<open>parseGpgKey\<close>\<close>

declare matches.simps(7,8) [simp del]

lemma colon_fields_simps [simp]:
  "colon_fields [] = []"
  "colon_fields (f # fs) = f @ CHR '':'' # colon_fields fs"
  by (simp_all add: colon_fields_def)

lemma Star_step:
  "matches r x = [y] \<Longrightarrow> length (fst y) < length (fst x) \<Longrightarrow>
   matches (Star r) x = matches (Star r) y @ [x]"
  by (subst matches.simps) simp

lemma Star_stop: "matches r x = [] \<Longrightarrow> matches (Star r) x = [x]"
  by (subst matches.simps) simp

lemma LazyStar_step:
  "matches r x = [y] \<Longrightarrow> length (fst y) < length (fst x) \<Longrightarrow>
   matches (LazyStar r) x = x # matches (LazyStar r) y"
  by (subst matches.simps) simp

lemma first_SeqI:
  "first_match p x = Some y \<Longrightarrow> first_match k y = Some z \<Longrightarrow> first_match (Seq p k) x = Some z"
  by (auto simp: first_match_def split: list.splits)

lemma first_Seq_single:
  "matches p x = [y] \<Longrightarrow> first_match (Seq p k) x = first_match k y"
  by (simp add: first_match_def)

lemma matches_lits: "matches (lits w) (w @ s, g) = [(s, g)]"
  by (induction w) simp_all

lemma matches_field: "CHR '':'' \<notin> set f \<Longrightarrow> matches field (f @ CHR '':'' # s, g) = [(s, g)]"
proof (induction f)
  case Nil
  have "matches (Star (NotClass '':'')) (CHR '':'' # s, g) = [(CHR '':'' # s, g)]"
    by (rule Star_stop) simp
  then show ?case by (simp add: field_def)
next
  case (Cons a f)
  then have a: "a \<noteq> CHR '':''" and f: "CHR '':'' \<notin> set f" by auto
  have one: "matches (NotClass '':'') (a # f @ CHR '':'' # s, g) = [(f @ CHR '':'' # s, g)]"
    using a by simp
  have "matches (Star (NotClass '':'')) (a # f @ CHR '':'' # s, g)
      = matches (Star (NotClass '':'')) (f @ CHR '':'' # s, g) @ [(a # f @ CHR '':'' # s, g)]"
    using one by (rule Star_step) simp
  moreover have "matches field (f @ CHR '':'' # s, g) = [(s, g)]" using Cons.IH f by simp
  ultimately show ?case using a by (simp add: field_def)
qed

lemma matches_times_field:
  "list_all field_ok fs \<Longrightarrow> matches (repeat (length fs) field) (colon_fields fs @ s, g) = [(s, g)]"
proof (induction fs)
  case Nil
  then show ?case by simp
next
  case (Cons f fs)
  then have "matches field (f @ CHR '':'' # colon_fields fs @ s, g) = [(colon_fields fs @ s, g)]"
    by (simp add: matches_field field_ok_def)
  then show ?case using Cons by simp
qed

lemma first_star_class:
  "list_all (\<lambda>c. c \<in> set cs) run \<Longrightarrow> (case s of [] \<Rightarrow> True | c # _ \<Rightarrow> c \<notin> set cs) \<Longrightarrow>
   first_match (Star (Class cs)) (run @ s, g) = Some (s, g)"
proof (induction run)
  case Nil
  have "matches (Class cs) (s, g) = []" using Nil(2) by (cases s) simp_all
  then have "matches (Star (Class cs)) (s, g) = [(s, g)]" by (rule Star_stop)
  then show ?case by (simp add: first_match_def)
next
  case (Cons a run)
  then have "matches (Class cs) (a # run @ s, g) = [(run @ s, g)]" by simp
  then have "matches (Star (Class cs)) (a # run @ s, g)
      = matches (Star (Class cs)) (run @ s, g) @ [(a # run @ s, g)]"
    by (rule Star_step) simp
  moreover have "first_match (Star (Class cs)) (run @ s, g) = Some (s, g)" using Cons by simp
  ultimately show ?case by (auto simp: first_match_def split: list.splits)
qed

lemma first_group:
  "first_match r (s, g) = Some (s', g') \<Longrightarrow>
   first_match (Group n r) (s, g) = Some (s', g'(n := Some (take (length s - length s') s)))"
  by (auto simp: first_match_def split: list.splits)

lemma first_lazy_end: "first_match (LazyStar r) x = Some x"
  by (subst first_match_def, subst matches.simps) simp

lemma Seq_lazy_skip:
  "matches (LazyStar r) x = x # matches (LazyStar r) y \<Longrightarrow> matches c x = [] \<Longrightarrow>
   matches (Seq (LazyStar r) c) x = matches (Seq (LazyStar r) c) y"
  by simp

lemma first_lazy_fields:
  "list_all field_ok fs \<Longrightarrow> first_match k (s, g) = Some z \<Longrightarrow>
   first_match (Seq (LazyStar field) (Seq (Chr CHR 0x0A) k)) (colon_fields fs @ CHR 0x0A # s, g) = Some z"
proof (induction fs)
  case Nil
  have "\<exists>ws. matches (LazyStar field) (CHR 0x0A # s, g) = (CHR 0x0A # s, g) # ws"
    by (subst matches.simps) simp
  then show ?case using Nil(2) by (auto simp: first_match_def split: list.splits)
next
  case (Cons f fs)
  let ?x = "(f @ CHR '':'' # colon_fields fs @ CHR 0x0A # s, g)"
  let ?y = "(colon_fields fs @ CHR 0x0A # s, g)"
  have step: "matches field ?x = [?y]"
    using Cons.prems(1) by (simp add: matches_field field_ok_def)
  have lazy: "matches (LazyStar field) ?x = ?x # matches (LazyStar field) ?y"
    using step by (rule LazyStar_step) simp
  have miss: "matches (Seq (Chr CHR 0x0A) k) ?x = []"
    using Cons.prems(1) by (cases f) (auto simp: field_ok_def)
  have "first_match (Seq (LazyStar field) (Seq (Chr CHR 0x0A) k)) ?y = Some z"
    using Cons by simp
  moreover have "matches (Seq (LazyStar field) (Seq (Chr CHR 0x0A) k)) ?x
      = matches (Seq (LazyStar field) (Seq (Chr CHR 0x0A) k)) ?y"
    using lazy miss by (rule Seq_lazy_skip)
  ultimately show ?case by (simp only: first_match_def colon_fields_simps append_Cons append_assoc)
qed


declare parseGpgKey.simps [simp del]

lemma first_word_field:
  assumes "list_all (\<lambda>c. c \<in> set word_chars) w" and "first_match k (s, g(n := Some w)) = Some z"
  shows "first_match (Seq (Group n (Star (Class word_chars))) (Seq (Chr CHR '':'') k))
           (w @ CHR '':'' # s, g) = Some z"
proof -
  have "first_match (Star (Class word_chars)) (w @ CHR '':'' # s, g) = Some (CHR '':'' # s, g)"
    using assms(1) by (rule first_star_class) (simp add: word_chars_def)
  then have "first_match (Group n (Star (Class word_chars))) (w @ CHR '':'' # s, g)
      = Some (CHR '':'' # s, g(n := Some (take (length (w @ CHR '':'' # s) - length (CHR '':'' # s))
           (w @ CHR '':'' # s))))"
    by (rule first_group)
  then have grp: "first_match (Group n (Star (Class word_chars))) (w @ CHR '':'' # s, g)
      = Some (CHR '':'' # s, g(n := Some w))"
    by simp
  have "first_match (Seq (Chr CHR '':'') k) (CHR '':'' # s, g(n := Some w)) = Some z"
    using assms(2) by (simp add: first_match_def)
  with grp show ?thesis by (rule first_SeqI)
qed

lemma first_grp_part:
  assumes "length gp = 8" and "list_all field_ok gp" and "list_all (\<lambda>c. c \<in> set word_chars) w"
  shows "first_match grp_part (''grp:'' @ colon_fields gp @ w @ CHR '':'' # s, g)
           = Some (s, g(4 := Some w))"
proof -
  have f: "matches (repeat 8 field) (colon_fields gp @ w @ CHR '':'' # s, g) = [(w @ CHR '':'' # s, g)]"
    using matches_times_field [OF assms(2), of "w @ CHR '':'' # s" g] assms(1) by simp
  have "first_match (Seq (Group 4 (Star (Class word_chars))) (Seq (Chr CHR '':'') (LazyStar field)))
          (w @ CHR '':'' # s, g) = Some (s, g(4 := Some w))"
    using assms(3) by (rule first_word_field) (rule first_lazy_end)
  then have "first_match (Seq (repeat 8 field)
        (Seq (Group 4 (Star (Class word_chars))) (Seq (Chr CHR '':'') (LazyStar field))))
      (colon_fields gp @ w @ CHR '':'' # s, g) = Some (s, g(4 := Some w))"
    using first_Seq_single [OF f] by simp
  then show ?thesis by (simp add: grp_part_def first_match_def)
qed

lemma first_fpr_part:
  assumes "ft = ''fpr'' \<or> ft = ''fp2''" and "length fpr = 8" and "list_all field_ok fpr"
    and "list_all (\<lambda>c. c \<in> set word_chars) w" and "list_all field_ok ftr"
    and "first_match k (s, g(3 := Some w)) = Some z"
  shows "first_match (fpr_part k)
           (ft @ CHR '':'' # colon_fields fpr @ w @ CHR '':'' # colon_fields ftr @ CHR 0x0A # s, g)
           = Some z"
proof -
  let ?after = "colon_fields ftr @ CHR 0x0A # s"
  have f: "matches (repeat 8 field) (colon_fields fpr @ w @ CHR '':'' # ?after, g)
       = [(w @ CHR '':'' # ?after, g)]"
    using matches_times_field [OF assms(3), of "w @ CHR '':'' # ?after" g] assms(2) by simp
  have "first_match (Seq (LazyStar field) (Seq (Chr CHR 0x0A) k)) (?after, g(3 := Some w)) = Some z"
    using assms(5,6) by (rule first_lazy_fields)
  with assms(4) have "first_match (Seq (Group 3 (Star (Class word_chars))) (Seq (Chr CHR '':'')
        (Seq (LazyStar field) (Seq (Chr CHR 0x0A) k)))) (w @ CHR '':'' # ?after, g) = Some z"
    by (rule first_word_field)
  then have "first_match (Seq (repeat 8 field) (Seq (Group 3 (Star (Class word_chars)))
        (Seq (Chr CHR '':'') (Seq (LazyStar field) (Seq (Chr CHR 0x0A) k)))))
      (colon_fields fpr @ w @ CHR '':'' # ?after, g) = Some z"
    using first_Seq_single [OF f] by simp
  then show ?thesis using assms(1) by (auto simp: fpr_part_def first_match_def)
qed

lemma first_caps:
  assumes "cp \<noteq> []" and "list_all (\<lambda>c. c \<in> set ''escaD?'') cp"
    and "case s of [] \<Rightarrow> True | c # _ \<Rightarrow> c \<notin> set ''escaD?''"
  shows "first_match (Group 2 (plus_rx (Class ''escaD?''))) (cp @ s, g) = Some (s, g(2 := Some cp))"
proof -
  obtain a run where cp: "cp = a # run" using assms(1) by (cases cp) auto
  have run: "list_all (\<lambda>c. c \<in> set ''escaD?'') run" and a: "a \<in> set ''escaD?''"
    using assms(2) cp by simp_all
  have one: "matches (Class ''escaD?'') (a # run @ s, g) = [(run @ s, g)]" using a by simp
  have "first_match (Star (Class ''escaD?'')) (run @ s, g) = Some (s, g)"
    using run assms(3) by (rule first_star_class)
  then have "first_match (plus_rx (Class ''escaD?'')) (a # run @ s, g) = Some (s, g)"
    unfolding plus_rx_def using first_Seq_single [OF one] by simp
  then have "first_match (Group 2 (plus_rx (Class ''escaD?''))) (a # run @ s, g)
      = Some (s, g(2 := Some (take (length (a # run @ s) - length s) (a # run @ s))))"
    by (rule first_group)
  then show ?thesis using cp by simp
qed


lemma first_key_part:
  assumes "tg = ''pub'' \<or> tg = ''sub''" and "length pr = 10" and "list_all field_ok pr"
    and "cp \<noteq> []" and "list_all (\<lambda>c. c \<in> set ''escaD?'') cp"
    and "list_all (\<lambda>c. c \<in> set word_chars) ex"
    and "case ex of [] \<Rightarrow> True | c # _ \<Rightarrow> c \<notin> set ''escaD?''"
    and "list_all field_ok tr"
    and "first_match k (s, g(1 := Some tg, 2 := Some cp)) = Some z"
  shows "first_match (key_part k)
           (tg @ CHR '':'' # colon_fields pr @ cp @ ex @ CHR '':'' # colon_fields tr @ CHR 0x0A # s, g)
           = Some z"
proof -
  let ?after = "colon_fields tr @ CHR 0x0A # s"
  let ?g1 = "g(1 := Some tg)"
  have lazy: "first_match (Seq (LazyStar field) (Seq (Chr CHR 0x0A) k)) (?after, ?g1(2 := Some cp)) = Some z"
    using assms(8,9) by (rule first_lazy_fields)
  have "first_match (Star (Class word_chars)) (ex @ CHR '':'' # ?after, ?g1(2 := Some cp))
      = Some (CHR '':'' # ?after, ?g1(2 := Some cp))"
    using assms(6) by (rule first_star_class) (simp add: word_chars_def)
  moreover have "first_match (Seq (Chr CHR '':'') (Seq (LazyStar field) (Seq (Chr CHR 0x0A) k)))
      (CHR '':'' # ?after, ?g1(2 := Some cp)) = Some z"
    using lazy by (simp add: first_match_def)
  ultimately have words: "first_match (Seq (Star (Class word_chars)) (Seq (Chr CHR '':'')
        (Seq (LazyStar field) (Seq (Chr CHR 0x0A) k)))) (ex @ CHR '':'' # ?after, ?g1(2 := Some cp)) = Some z"
    by (rule first_SeqI)
  have "case ex @ CHR '':'' # ?after of [] \<Rightarrow> True | c # _ \<Rightarrow> c \<notin> set ''escaD?''"
    using assms(7) by (cases ex) simp_all
  with assms(4,5)
  have "first_match (Group 2 (plus_rx (Class ''escaD?''))) (cp @ ex @ CHR '':'' # ?after, ?g1)
      = Some (ex @ CHR '':'' # ?after, ?g1(2 := Some cp))"
    by (rule first_caps)
  from this words
  have key_caps: "first_match (Seq (Group 2 (plus_rx (Class ''escaD?''))) (Seq (Star (Class word_chars))
        (Seq (Chr CHR '':'') (Seq (LazyStar field) (Seq (Chr CHR 0x0A) k)))))
      (cp @ ex @ CHR '':'' # ?after, ?g1) = Some z"
    by (rule first_SeqI)
  have f: "matches (repeat 10 field) (colon_fields pr @ cp @ ex @ CHR '':'' # ?after, ?g1)
       = [(cp @ ex @ CHR '':'' # ?after, ?g1)]"
    using matches_times_field [OF assms(3), of "cp @ ex @ CHR '':'' # ?after" ?g1] assms(2) by simp
  have "first_match (Seq (repeat 10 field) (Seq (Group 2 (plus_rx (Class ''escaD?'')))
        (Seq (Star (Class word_chars)) (Seq (Chr CHR '':'') (Seq (LazyStar field)
        (Seq (Chr CHR 0x0A) k))))))
      (colon_fields pr @ cp @ ex @ CHR '':'' # ?after, ?g1) = Some z"
    using first_Seq_single [OF f] key_caps by simp
  then show ?thesis using assms(1) by (auto simp: key_part_def first_match_def)
qed

lemma first_pattern:
  assumes "wf_block b"
  shows "first_match pattern (render b @ s, g)
    = Some (s, g(1 := Some (key_tag b), 2 := Some (key_caps b), 3 := Some (fpr_value b), 4 := Some (grp_value b)))"
proof -
  let ?g = "g(1 := Some (key_tag b), 2 := Some (key_caps b))"
  have "first_match grp_part (''grp:'' @ colon_fields (grp_fields b) @ grp_value b @ CHR '':'' # s, ?g(3 := Some (fpr_value b)))
      = Some (s, ?g(3 := Some (fpr_value b), 4 := Some (grp_value b)))"
    using assms by (intro first_grp_part) (simp_all add: wf_block_def)
  then have "first_match (fpr_part grp_part)
      (fpr_tag b @ CHR '':'' # colon_fields (fpr_fields b) @ fpr_value b @ CHR '':'' # colon_fields (fpr_trail b)
         @ CHR 0x0A # ''grp:'' @ colon_fields (grp_fields b) @ grp_value b @ CHR '':'' # s, ?g)
      = Some (s, ?g(3 := Some (fpr_value b), 4 := Some (grp_value b)))"
    using assms by (intro first_fpr_part) (simp_all add: wf_block_def)
  then have "first_match (key_part (fpr_part grp_part))
      (key_tag b @ CHR '':'' # colon_fields (key_fields b) @ key_caps b @ key_rest b @ CHR '':'' # colon_fields (key_trail b)
         @ CHR 0x0A # fpr_tag b @ CHR '':'' # colon_fields (fpr_fields b) @ fpr_value b @ CHR '':'' # colon_fields (fpr_trail b)
         @ CHR 0x0A # ''grp:'' @ colon_fields (grp_fields b) @ grp_value b @ CHR '':'' # s, g)
      = Some (s, ?g(3 := Some (fpr_value b), 4 := Some (grp_value b)))"
    using assms by (intro first_key_part) (simp_all add: wf_block_def)
  then show ?thesis by (simp add: pattern_def render_def)
qed

lemma matches_lits_cases:
  "matches (lits w) (s, g) = (if startsWith s w then [(drop (length w) s, g)] else [])"
proof (induction w arbitrary: s)
  case Nil
  then show ?case by simp
next
  case (Cons c w)
  then show ?case by (cases s) simp_all
qed

lemma first_pattern_untagged: "\<not> tagged s \<Longrightarrow> first_match pattern (s, g) = None"
  by (auto simp: tagged_def pattern_def key_part_def first_match_def matches_lits_cases startsWith_iff
      split: list.splits if_splits)


lemma exec_quiet: "quiet junk rest \<Longrightarrow> exec pattern (junk @ rest) = exec pattern rest"
  by (induction junk) (simp_all add: first_pattern_untagged)

lemma exec_quiet_end: "quiet junk [] \<Longrightarrow> exec pattern junk = None"
proof -
  assume "quiet junk []"
  then have "exec pattern (junk @ []) = exec pattern []" by (rule exec_quiet)
  moreover have "exec pattern [] = None"
    by (simp add: first_pattern_untagged tagged_def)
  ultimately show ?thesis by simp
qed

lemma render_Cons: "wf_block b \<Longrightarrow> \<exists>c t. render b = c # t"
  by (auto simp: wf_block_def render_def)

lemma exec_block:
  assumes "wf_block b"
  shows "exec pattern (render b @ s)
    = Some (Map.empty(1 := Some (key_tag b), 2 := Some (key_caps b), 3 := Some (fpr_value b), 4 := Some (grp_value b)), s)"
proof -
  obtain c t where r: "render b = c # t" using render_Cons [OF assms] by blast
  have "first_match pattern (c # t @ s, Map.empty)
    = Some (s, Map.empty(1 := Some (key_tag b), 2 := Some (key_caps b), 3 := Some (fpr_value b), 4 := Some (grp_value b)))"
    using first_pattern [OF assms, of s Map.empty] r by simp
  then show ?thesis using r by simp
qed

lemma parse_block:
  assumes "quiet junk (render b @ rest)" and "wf_block b"
  shows "parseGpgKey (junk @ render b @ rest) = map_option ((#) (block_info b)) (parseGpgKey rest)"
proof -
  have e: "exec pattern (junk @ render b @ rest)
    = Some (Map.empty(1 := Some (key_tag b), 2 := Some (key_caps b), 3 := Some (fpr_value b), 4 := Some (grp_value b)), rest)"
    using exec_quiet [OF assms(1)] exec_block [OF assms(2)] by simp
  obtain c t where r: "render b = c # t" using render_Cons [OF assms(2)] by blast
  then have shorter: "length rest < length (junk @ render b @ rest)" by simp
  show ?thesis
    by (subst parseGpgKey.simps) (simp add: e shorter group_def block_info_def del: length_append)
qed

lemma parse_end: "quiet junk [] \<Longrightarrow> parseGpgKey junk = Some []"
  by (subst parseGpgKey.simps) (simp add: exec_quiet_end)

text \<open>
  Claim C7. A listing of two well-formed blocks, with any text before, between and after
  them in which no \<^verbatim>\<open>pub:\<close> or \<^verbatim>\<open>sub:\<close> begins: \<^verbatim>\<open>parseGpgKey\<close> returns exactly two
  records, in the order of the blocks, each with the type, capabilities, fingerprint and
  keygrip of its own block.
\<close>

theorem parseGpgKey_two_blocks:
  assumes "wf_block b1" and "wf_block b2"
    and "quiet j0 (render b1 @ j1 @ render b2 @ j2)"
    and "quiet j1 (render b2 @ j2)"
    and "quiet j2 []"
  shows "parseGpgKey (j0 @ render b1 @ j1 @ render b2 @ j2) = Some [block_info b1, block_info b2]"
proof -
  have "parseGpgKey (j0 @ render b1 @ j1 @ render b2 @ j2)
      = map_option ((#) (block_info b1)) (parseGpgKey (j1 @ render b2 @ j2))"
    using assms(3,1) by (rule parse_block)
  also have "parseGpgKey (j1 @ render b2 @ j2) = map_option ((#) (block_info b2)) (parseGpgKey j2)"
    using assms(4,2) by (rule parse_block)
  also have "parseGpgKey j2 = Some []" using assms(5) by (rule parse_end)
  finally show ?thesis by simp
qed

theorem parseGpgKey_two_blocks_witness:
  "parseGpgKey
    (''tru::1:1582185482:0:3:1:5'' @ [CHR 0x0A]
     @ ''pub:u:4096:1:6E4C1E8149AC3C4B:1582185482:::u:::scESC::::::23::0:'' @ [CHR 0x0A]
     @ ''fpr:::::::::ABCDEF0123456789ABCDEF0123456789ABCFF001:'' @ [CHR 0x0A]
     @ ''grp:::::::::CB18328AD05158F97CC8F33682F7AD291F52CB08:'' @ [CHR 0x0A]
     @ ''uid:u::::1582185482::HASH::Name <mail@example.org>::::::::::0:'' @ [CHR 0x0A]
     @ ''sub:u:4096:1:AAAA1E8149AC3C4B:1582185482::::::e::::::23:'' @ [CHR 0x0A]
     @ ''fpr:::::::::1111110123456789ABCDEF0123456789ABCFF002:'' @ [CHR 0x0A]
     @ ''grp:::::::::DD18328AD05158F97CC8F33682F7AD291F52CB09:'' @ [CHR 0x0A])
   = Some [\<lparr>type = ''pub'', capabilities = ''sc'',
             fingerprint = ''ABCDEF0123456789ABCDEF0123456789ABCFF001'',
             keygrip = ''CB18328AD05158F97CC8F33682F7AD291F52CB08''\<rparr>,
           \<lparr>type = ''sub'', capabilities = ''e'',
             fingerprint = ''1111110123456789ABCDEF0123456789ABCFF002'',
             keygrip = ''DD18328AD05158F97CC8F33682F7AD291F52CB09''\<rparr>]"
  using parseGpgKey_two_blocks [of sample_pub sample_sub
      "''tru::1:1582185482:0:3:1:5'' @ [CHR 0x0A]" sample_uid "[CHR 0x0A]"]
  by (simp add: wf_block_def field_ok_def word_chars_def sample_pub_def sample_sub_def sample_uid_def
      render_def block_info_def tagged_def)

section \<open>Flow of the passphrase through \<^verbatim>\<open>sign\<close>\<close>

lemma recording_simps [simp]:
  "initialize (recording c) = recorded (initialize c)"
  "receiveResponse (recording c) = recorded (receiveResponse c)"
  "dispose (recording c) = (\<lambda>(s, t). (dispose c s, t))"
  by (simp_all add: recording_def)

lemma recording_send:
  "sendRequest (recording c) r (s, t) =
     (case sendRequest c r s of (r', s') \<Rightarrow> (r', (s', t @ [r])))"
  by (simp add: recording_def)

















lemma related_bind:
  assumes "related R m m'" and "\<And>a. related R (f a) (f' a)"
  shows "related R (bind m f) (bind m' f')"
  unfolding related_def
proof (intro allI impI)
  fix s s'
  assume "R s s'"
  then have eq: "fst (m s) = fst (m' s')" and st: "R (snd (m s)) (snd (m' s'))"
    using assms(1) unfolding related_def by blast+
  obtain r s1 where run: "m s = (r, s1)" by (metis surj_pair)
  obtain s1' where run': "m' s' = (r, s1')" using eq run by (metis fst_conv surj_pair)
  show "fst (bind m f s) = fst (bind m' f' s') \<and> R (snd (bind m f s)) (snd (bind m' f' s'))"
  proof (cases r)
    case (Inl e)
    then show ?thesis using run run' st by (simp add: bind_def)
  next
    case (Inr a)
    have "R s1 s1'" using st run run' by simp
    then have "fst (f a s1) = fst (f' a s1') \<and> R (snd (f a s1)) (snd (f' a s1'))"
      using assms(2) [of a] unfolding related_def by blast
    then show ?thesis using run run' Inr by (simp add: bind_def)
  qed
qed

lemma related_lift: "related R (lift x) (lift x)"
  by (simp add: related_def lift_def)

lemma related_try_finally:
  assumes "related R m m'" and "\<And>s s'. R s s' \<Longrightarrow> R (h s) (h' s')"
  shows "related R (try_finally m h) (try_finally m' h')"
  unfolding related_def
proof (intro allI impI)
  fix s s'
  assume "R s s'"
  then have "fst (m s) = fst (m' s')" and "R (snd (m s)) (snd (m' s'))"
    using assms(1) unfolding related_def by blast+
  then show "fst (try_finally m h s) = fst (try_finally m' h' s')
      \<and> R (snd (try_finally m h s)) (snd (try_finally m' h' s'))"
    using assms(2) by (simp add: try_finally_def case_prod_beta)
qed

lemma related_expect:
  "related R (receiveResponse c) (receiveResponse c') \<Longrightarrow> related R (expect c t) (expect c' t)"
  unfolding expect_def by (rule related_bind) (simp_all add: related_lift)

lemma related_sign:
  assumes init: "related R (initialize c) (initialize c')"
    and recv: "related R (receiveResponse c) (receiveResponse c')"
    and cmd: "\<And>name args.
      related R (sendRequest c (fromCommand name args)) (sendRequest c' (fromCommand name args))"
    and raw: "related R (sendRequest c (fromRawData p)) (sendRequest c' (fromRawData p'))"
    and disp: "\<And>s s'. R s s' \<Longrightarrow> R (dispose c s) (dispose c' s')"
  shows "related R (sign c k p h) (sign c' k p' h)"
proof -
  have ex: "related R (expect c t) (expect c' t)" for t
    using recv by (rule related_expect)
  have branch: "related R (pksign_branch c p t) (pksign_branch c' p' t)" for t
    unfolding pksign_branch_def
    by (auto intro!: related_bind ex raw cmd related_lift)
  have "related R (sign_body c k p h) (sign_body c' k p' h)"
    unfolding sign_body_def
    by (intro related_bind ex cmd recv branch)
  then have "related R (try_finally (sign_body c k p h) (dispose c))
      (try_finally (sign_body c' k p' h) (dispose c'))"
    using disp by (rule related_try_finally)
  then show ?thesis unfolding sign_def using init by (intro related_bind)
qed

lemma recording_faithful:
  "fst (sign (recording c) k p h (s, t)) = fst (sign c k p h s)
   \<and> fst (snd (sign (recording c) k p h (s, t))) = snd (sign c k p h s)"
proof -
  let ?R = "\<lambda>st s'. fst st = (s' :: 'a)"
  have "related ?R (sign (recording c) k p h) (sign c k p h)"
    by (rule related_sign)
      (auto simp: related_def recorded_def recording_send split: prod.splits)
  then show ?thesis unfolding related_def by (metis fst_conv)
qed

lemma counting_faithful:
  "fst (sign (counting c) k p h (s, n)) = fst (sign c k p h s)
   \<and> fst (snd (sign (counting c) k p h (s, n))) = snd (sign c k p h s)"
proof -
  let ?R = "\<lambda>st s'. fst st = (s' :: 'a)"
  have "related ?R (sign (counting c) k p h) (sign c k p h)"
    by (rule related_sign)
      (auto simp: related_def counted_def split: prod.splits)
  then show ?thesis unfolding related_def by (metis fst_conv)
qed















end
